theory Spec2Isabelle
  imports Complex_Main "HOL-Library.Multiset" "HOL-Library.Log_Nat"
begin

section \<open>Dishwasher rotation by load: the state machine of the React component\<close>

text \<open>
  The component \<open>DishwasherApp\<close> of \<open>roommate_dishwasher_web_app_rotation_by_load.js\<close>
  keeps one state document \<open>{roommates, queue, paused, credits, history, pins}\<close> and
  changes it through event handlers. Each handler is embedded as a function on that
  document. What the handlers take from outside is an argument of the model:
  \<^item> the answer to a \<open>prompt\<close> is a \<open>string option\<close> (\<open>None\<close> when the dialog is
    cancelled and \<open>prompt\<close> returns \<open>null\<close>); an answer is ignored when the code never
    shows the prompt;
  \<^item> \<open>Math.random().toString(36).slice(2)\<close> and \<open>new Date().toISOString()\<close> are the
    arguments \<open>eid\<close> and \<open>now\<close>;
  \<^item> an \<open>alert\<close>, or the exception that leaves a handler, is returned beside the state.
  Strings are lists of 8-bit code units.

  An event handler reads the values of the render it was created in and queues
  updates that are applied to the latest state. \<open>reorderQueue\<close> and \<open>advanceQueue\<close>
  compute the new queue from the render, so they take two states: the render \<open>snap\<close>
  and the state the update is applied to. For a single event both are the same state.
\<close>

subsection \<open>Strings\<close>

text \<open>
  \<open>String.prototype.trim\<close> strips white space and line terminators from both ends.
  Among the code units below 256 these are TAB, LF, VT, FF, CR, SPACE and NBSP.
\<close>

definition is_space :: "char \<Rightarrow> bool" where
  "is_space c = (c \<in> {CHR 0x09, CHR 0x0A, CHR 0x0B, CHR 0x0C, CHR 0x0D, CHR 0x20, CHR 0xA0})"

definition trim :: "string \<Rightarrow> string" where
  "trim s = rev (dropWhile is_space (rev (dropWhile is_space s)))"

definition is_digit :: "char \<Rightarrow> bool" where
  "is_digit c = (c \<in> set ''0123456789'')"

text \<open>The test \<open>/^[0-9]{4,8}$/.test(pin)\<close>: four to eight characters, all of them digits.\<close>

definition pin_format :: "string \<Rightarrow> bool" where
  "pin_format p = (4 \<le> length p \<and> length p \<le> 8 \<and> list_all is_digit p)"

text \<open>\<open>value.split(",")\<close>: the pieces between the commas, empty pieces included.\<close>

fun split_comma :: "string \<Rightarrow> string list" where
  "split_comma [] = [[]]"
| "split_comma (c # cs) =
     (if c = CHR '','' then [] # split_comma cs
      else (case split_comma cs of
              [] \<Rightarrow> [[c]]
            | p # ps \<Rightarrow> (c # p) # ps))"

text \<open>\<open>a || d\<close> on an optional string: the default replaces \<open>undefined\<close> and \<open>""\<close>.\<close>

definition orDefault :: "string option \<Rightarrow> string \<Rightarrow> string" where
  "orDefault a d = (case a of None \<Rightarrow> d | Some x \<Rightarrow> if x = [] then d else x)"

subsection \<open>Objects used as dictionaries\<close>

text \<open>
  \<open>paused\<close>, \<open>credits\<close> and \<open>pins\<close> are plain objects: object literals, results of
  \<open>JSON.parse\<close>, of a spread or of \<open>Object.fromEntries\<close>. A map holds the own
  properties of such an object (no entry holds \<open>null\<close>). Reading \<open>obj[k]\<close> finds an
  own property first, then a property of \<open>Object.prototype\<close>, and is \<open>undefined\<close>
  otherwise. The names below are the properties of \<open>Object.prototype\<close>; each of them
  reads as a function, \<open>__proto__\<close> as the prototype object itself, so what is
  inherited is never \<open>null\<close> nor falsy.
\<close>

definition protoKeys :: "string list" where
  "protoKeys =
     [''constructor'', ''__defineGetter__'', ''__defineSetter__'', ''hasOwnProperty'',
      ''__lookupGetter__'', ''__lookupSetter__'', ''isPrototypeOf'', ''propertyIsEnumerable'',
      ''toString'', ''valueOf'', ''__proto__'', ''toLocaleString'']"

datatype 'v lookup = Own 'v | Inherited string | Missing

definition jsGet :: "(string \<rightharpoonup> 'v) \<Rightarrow> string \<Rightarrow> 'v lookup" where
  "jsGet m k =
     (case m k of
        Some v \<Rightarrow> Own v
      | None \<Rightarrow> if k \<in> set protoKeys then Inherited k else Missing)"

text \<open>
  The assignment \<open>obj[k] = v\<close> of a number or a string: it writes an own property,
  except that without an own \<open>__proto__\<close> the inherited setter of that name takes the
  value and ignores what is not an object. (A computed key in an object literal, a
  spread and \<open>Object.fromEntries\<close> define own properties under every name, so they are
  plain map updates.)
\<close>

definition jsSet :: "(string \<rightharpoonup> 'v) \<Rightarrow> string \<Rightarrow> 'v \<Rightarrow> (string \<rightharpoonup> 'v)" where
  "jsSet m k v = (if m k = None \<and> k = ''__proto__'' then m else m(k \<mapsto> v))"

subsection \<open>Numbers\<close>

text \<open>
  A credit is a JavaScript number, an IEEE 754 double; a finite double is the rational
  it denotes. \<open>roundDouble\<close> rounds a rational to the nearest double, ties to the even
  significand: with \<open>e\<close> the exponent of the last place (the binary exponent of the
  value minus 52, and -1074 for subnormal values), the value divided by \<open>2^e\<close> is
  rounded to an integer. The sum of a finite double and 0.5 never overflows, so
  infinities do not arise.
\<close>

definition pow2 :: "int \<Rightarrow> rat" where
  "pow2 e = (if 0 \<le> e then 2 ^ nat e else 1 / 2 ^ nat (- e))"

text \<open>The binary exponent of a positive rational: the floor of its logarithm to base 2.\<close>

definition ilog2 :: "rat \<Rightarrow> int" where
  "ilog2 a = (if 1 \<le> a then bitlen \<lfloor>a\<rfloor> - 1 else - bitlen (\<lceil>1 / a\<rceil> - 1))"

definition roundHalfEven :: "rat \<Rightarrow> int" where
  "roundHalfEven q =
     (let f = \<lfloor>q\<rfloor>; d = q - of_int f in
      if d < 1 / 2 then f
      else if 1 / 2 < d then f + 1
      else if even f then f else f + 1)"

definition roundDouble :: "rat \<Rightarrow> rat" where
  "roundDouble r =
     (if r = 0 then 0
      else (let a = \<bar>r\<bar>; e = max (ilog2 a - 52) (- 1074) in
            sgn r * of_int (roundHalfEven (a / pow2 e)) * pow2 e))"

text \<open>
  What an entry of \<open>credits\<close> can hold: a number; a member of \<open>Object.prototype\<close>
  (copied by \<open>s.credits[n] ?? 0\<close>); or the string that \<open>v + 0.5\<close> gives for a \<open>v\<close> that
  is not a number, the text of \<open>v\<close> followed by \<open>0.5\<close>.
\<close>

datatype credit = Num rat | Member string | Joined credit

text \<open>\<open>v + 0.5\<close>: addition of doubles, or concatenation of strings.\<close>

definition plusHalf :: "credit \<Rightarrow> credit" where
  "plusHalf v = (case v of Num x \<Rightarrow> Num (roundDouble (x + 1 / 2)) | _ \<Rightarrow> Joined v)"

text \<open>What an entry of \<open>pins\<close> can hold: a string, or a member of \<open>Object.prototype\<close>.\<close>

datatype pinval = Pin string | PinMember string

subsection \<open>The state document\<close>

datatype kind = ThreePM | Night

record entry =
  id_tok :: string
  when_iso :: string
  kind_of :: kind
  runBy :: string
  unloadBy :: string
  runCredit :: rat
  unloadCredit :: rat

record state =
  roommates :: "string list"
  queue :: "string list"
  paused :: "string \<rightharpoonup> bool"
  credits :: "string \<rightharpoonup> credit"
  history :: "entry list"
  pins :: "string \<rightharpoonup> pinval"

definition defaultState :: state where
  "defaultState =
     \<lparr> roommates = [''A'', ''B'', ''C'', ''D''],
       queue = [''A'', ''B'', ''C'', ''D''],
       paused = Map.empty,
       credits = Map.empty,
       history = [],
       pins = Map.empty \<rparr>"

text \<open>
  What a handler reports: one of the three alerts, or the \<open>TypeError\<close> that leaves it
  uncaught.
\<close>

datatype report =
  PIN_must_be_4_8_digits | Incorrect_PIN | Please_set_roommates_first | Uncaught_TypeError

text \<open>The truth value of \<open>paused[n]\<close>: a missing entry is falsy, an inherited one truthy.\<close>

definition isPaused :: "(string \<rightharpoonup> bool) \<Rightarrow> string \<Rightarrow> bool" where
  "isPaused p n = (case jsGet p n of Own b \<Rightarrow> b | Inherited _ \<Rightarrow> True | Missing \<Rightarrow> False)"

text \<open>\<open>credits[n] ?? 0\<close>.\<close>

definition creditOf :: "(string \<rightharpoonup> credit) \<Rightarrow> string \<Rightarrow> credit" where
  "creditOf c n = (case jsGet c n of Own v \<Rightarrow> v | Inherited k \<Rightarrow> Member k | Missing \<Rightarrow> Num 0)"

text \<open>
  \<open>pins[n] ?? ""\<close>, and \<open>pins[n] || ""\<close> as well: the only falsy value that an entry or
  the prototype can supply is the empty string.
\<close>

definition pinOf :: "(string \<rightharpoonup> pinval) \<Rightarrow> string \<Rightarrow> pinval" where
  "pinOf p n = (case jsGet p n of Own v \<Rightarrow> v | Inherited k \<Rightarrow> PinMember k | Missing \<Rightarrow> Pin [])"

definition activeQueue :: "state \<Rightarrow> string list" where
  "activeQueue s = filter (\<lambda>n. \<not> isPaused (paused s) n) (queue s)"

text \<open>\<open>state.queue.filter((n) => paused[n])\<close>, the paused part of the queue.\<close>

definition pausedList :: "state \<Rightarrow> string list" where
  "pausedList s = filter (isPaused (paused s)) (queue s)"

text \<open>\<open>activeQueue[0] || null\<close>: no current roommate when the head is missing or empty.\<close>

definition current :: "state \<Rightarrow> string option" where
  "current s = (case activeQueue s of
                  [] \<Rightarrow> None
                | n # _ \<Rightarrow> if n = [] then None else Some n)"

text \<open>
  The effect that runs when \<open>roommates\<close> changes: a roommate whose entry reads as
  \<open>null\<close> or \<open>undefined\<close> gets credit 0, and likewise the empty PIN.
\<close>

definition ensureEntries :: "state \<Rightarrow> state" where
  "ensureEntries s =
     s\<lparr> credits := foldl (\<lambda>c r. if jsGet c r = Missing then jsSet c r (Num 0) else c)
                     (credits s) (roommates s),
        pins := foldl (\<lambda>p r. if jsGet p r = Missing then jsSet p r (Pin []) else p)
                     (pins s) (roommates s) \<rparr>"

subsection \<open>Rotation\<close>

definition parseNames :: "string \<Rightarrow> string list" where
  "parseNames v = filter (\<lambda>x. x \<noteq> []) (map trim (split_comma v))"

definition setRoommatesFromInput :: "string \<Rightarrow> state \<Rightarrow> state" where
  "setRoommatesFromInput v s =
     (let list = parseNames v in
      if list = [] then s
      else s\<lparr> roommates := list,
              queue := filter (\<lambda>n. \<not> isPaused (paused s) n) list,
              credits := foldl (\<lambda>acc n. acc(n \<mapsto> creditOf (credits s) n)) Map.empty list,
              pins := foldl (\<lambda>acc n. acc(n \<mapsto> pinOf (pins s) n)) Map.empty list \<rparr>)"

text \<open>
  \<open>Array.prototype.splice\<close> places its start index: a negative index counts from the
  end, and the result is clamped to \<open>[0, length]\<close>.
\<close>

definition spliceStart :: "int \<Rightarrow> 'a list \<Rightarrow> nat" where
  "spliceStart i xs =
     (if i < 0 then nat (max (int (length xs) + i) 0) else nat (min i (int (length xs))))"

text \<open>
  \<open>const [moved] = active.splice(i, 1)\<close>: the element removed (\<open>undefined\<close>, here
  \<open>None\<close>, when the start is the end of the array) and the array left.
\<close>

definition spliceOut :: "int \<Rightarrow> 'a list \<Rightarrow> 'a option \<times> 'a list" where
  "spliceOut i xs =
     (let k = spliceStart i xs in
      (if k < length xs then Some (xs ! k) else None, take k xs @ drop (Suc k) xs))"

text \<open>\<open>active.splice(i, 0, v)\<close>.\<close>

definition spliceIn :: "int \<Rightarrow> 'a \<Rightarrow> 'a list \<Rightarrow> 'a list" where
  "spliceIn i v xs = (let k = spliceStart i xs in take k xs @ v # drop k xs)"

text \<open>
  \<open>reorderQueue\<close> reads \<open>activeQueue\<close>, \<open>state.queue\<close> and \<open>paused\<close> of the render it
  was created in (\<open>snap\<close>) and replaces the queue of the state it is applied to. When
  nothing was removed, the array written to \<open>queue\<close> holds an \<open>undefined\<close>: it is no
  longer a list of names, and the model returns it as it is.
\<close>

datatype reorder_result = Updated state | Holed "string option list"

definition reorderQueue :: "int \<Rightarrow> int \<Rightarrow> state \<Rightarrow> state \<Rightarrow> reorder_result" where
  "reorderQueue fromIdx toIdx snap s =
     (if fromIdx = toIdx then Updated s
      else (case spliceOut fromIdx (activeQueue snap) of
              (Some moved, rest) \<Rightarrow>
                Updated (s\<lparr> queue := spliceIn toIdx moved rest @ pausedList snap \<rparr>)
            | (None, rest) \<Rightarrow>
                Holed (spliceIn toIdx None (map Some rest) @ map Some (pausedList snap))))"

text \<open>\<open>advanceQueue\<close> reads the render \<open>snap\<close> in the same way.\<close>

definition advanceQueue :: "state \<Rightarrow> state \<Rightarrow> state" where
  "advanceQueue snap s =
     (if activeQueue snap = [] then s
      else s\<lparr> queue := (tl (activeQueue snap) @ [hd (activeQueue snap)]) @ pausedList snap \<rparr>)"

definition togglePause :: "string \<Rightarrow> state \<Rightarrow> state" where
  "togglePause name s =
     (let p = (paused s)(name \<mapsto> \<not> isPaused (paused s) name) in
      s\<lparr> paused := p,
         queue := filter (\<lambda>n. \<not> isPaused p n) (queue s) @ filter (isPaused p) (queue s) \<rparr>)"

subsection \<open>PINs\<close>

definition setPin :: "string \<Rightarrow> string \<Rightarrow> state \<Rightarrow> state \<times> report option" where
  "setPin name pinRaw s =
     (let pin = trim pinRaw in
      if pin \<noteq> [] \<and> \<not> pin_format pin then (s, Some PIN_must_be_4_8_digits)
      else (s\<lparr> pins := (pins s)(name \<mapsto> Pin pin) \<rparr>, None))"

text \<open>
  \<open>requirePinFor\<close> returns \<open>true\<close> (\<open>Allowed\<close>), or alerts \<open>Incorrect PIN.\<close> and returns
  \<open>false\<close> (\<open>Denied\<close>), or throws (\<open>Threw\<close>): \<open>(pins[name] || "").trim()\<close> is a
  \<open>TypeError\<close> when \<open>pins[name]\<close> is a member of \<open>Object.prototype\<close>, which has no
  \<open>trim\<close>. \<open>entered\<close> is what the prompt returns if it is shown.
\<close>

datatype gate = Allowed | Denied | Threw

definition requirePinFor :: "(string \<rightharpoonup> pinval) \<Rightarrow> string \<Rightarrow> string option \<Rightarrow> gate" where
  "requirePinFor ps name entered =
     (case pinOf ps name of
        PinMember _ \<Rightarrow> Threw
      | Pin p \<Rightarrow>
          (let expected = trim p in
           if expected = [] then Allowed
           else if map_option trim entered = Some expected then Allowed
           else Denied))"

subsection \<open>Credits and loads\<close>

definition mkEntry :: "string \<Rightarrow> string \<Rightarrow> kind \<Rightarrow> string \<Rightarrow> string \<Rightarrow> entry" where
  "mkEntry eid now k r u =
     \<lparr> id_tok = eid, when_iso = now, kind_of = k, runBy = r, unloadBy = u,
       runCredit = 1 / 2, unloadCredit = 1 / 2 \<rparr>"

definition addCredits :: "string \<Rightarrow> string \<Rightarrow> kind \<Rightarrow> string \<Rightarrow> string \<Rightarrow> state \<Rightarrow> state" where
  "addCredits r u k eid now s =
     (let c0 = credits s;
          c1 = (if r \<noteq> [] then jsSet c0 r (plusHalf (creditOf c0 r)) else c0);
          c2 = (if u \<noteq> [] then jsSet c1 u (plusHalf (creditOf c1 u)) else c1)
      in s\<lparr> credits := c2, history := take 200 (mkEntry eid now k r u # history s) \<rparr>)"

text \<open>
  \<open>completeLoad\<close> queues the update of \<open>addCredits\<close> and then the one of
  \<open>advanceQueue\<close>, which was built from the render \<open>snap\<close>.
\<close>

definition completeLoad ::
  "kind \<Rightarrow> string \<Rightarrow> string \<Rightarrow> bool \<Rightarrow> string \<Rightarrow> string \<Rightarrow> state \<Rightarrow> state \<Rightarrow> state" where
  "completeLoad k r u advance eid now snap s =
     (let s1 = addCredits r u k eid now s in
      if advance then advanceQueue snap s1 else s1)"

definition defaultName :: "state \<Rightarrow> string" where
  "defaultName s =
     (case current s of
        Some c \<Rightarrow> c
      | None \<Rightarrow> (case roommates s of [] \<Rightarrow> [] | r # _ \<Rightarrow> r))"

text \<open>
  \<open>handleComplete\<close>: \<open>ansRun\<close> and \<open>ansUnload\<close> answer the two name prompts,
  \<open>pinRun\<close> and \<open>pinUnload\<close> the two PIN prompts. An exception of \<open>requirePinFor\<close>
  leaves the handler before any update is queued.
\<close>

definition handleComplete ::
  "kind \<Rightarrow> string option \<Rightarrow> string option \<Rightarrow> string option \<Rightarrow> string option \<Rightarrow>
   string \<Rightarrow> string \<Rightarrow> state \<Rightarrow> state \<times> report option" where
  "handleComplete k ansRun pinRun ansUnload pinUnload eid now s =
     (let r = orDefault (map_option trim ansRun) (defaultName s) in
      if r = [] then (s, Some Please_set_roommates_first)
      else (case requirePinFor (pins s) r pinRun of
              Threw \<Rightarrow> (s, Some Uncaught_TypeError)
            | Denied \<Rightarrow> (s, Some Incorrect_PIN)
            | Allowed \<Rightarrow>
               (let u = orDefault (map_option trim ansUnload) r in
                if u = [] then (s, Some Please_set_roommates_first)
                else (case requirePinFor (pins s) u pinUnload of
                        Threw \<Rightarrow> (s, Some Uncaught_TypeError)
                      | Denied \<Rightarrow> (s, Some Incorrect_PIN)
                      | Allowed \<Rightarrow> (completeLoad k r u True eid now s s, None)))))"

datatype action = Run | Unload

definition quickClaim ::
  "kind \<Rightarrow> string \<Rightarrow> action \<Rightarrow> string option \<Rightarrow> string \<Rightarrow> string \<Rightarrow> state \<Rightarrow> state \<times> report option" where
  "quickClaim k name act pin eid now s =
     (case requirePinFor (pins s) name pin of
        Threw \<Rightarrow> (s, Some Uncaught_TypeError)
      | Denied \<Rightarrow> (s, Some Incorrect_PIN)
      | Allowed \<Rightarrow>
         (case act of
            Run \<Rightarrow> (completeLoad k name name True eid now s s, None)
          | Unload \<Rightarrow>
              (let runner = (case current s of Some c \<Rightarrow> c | None \<Rightarrow> name) in
               (completeLoad k runner name True eid now s s, None))))"

text \<open>\<open>Object.fromEntries(Object.keys(s.credits).map((k) => [k, 0]))\<close>.\<close>

definition resetCredits :: "bool \<Rightarrow> state \<Rightarrow> state" where
  "resetCredits confirmed s =
     (if \<not> confirmed then s
      else s\<lparr> credits := (\<lambda>k. map_option (\<lambda>_. Num 0) (credits s k)) \<rparr>)"

subsection \<open>The states the interface can reach\<close>

text \<open>
  The events of the interface, each on the render of the state it changes: the effect
  after a change of \<open>roommates\<close>; the names field; the arrows of the active roommate at
  position \<open>idx\<close>, which call \<open>reorderQueue(idx, Math.max(0, idx-1))\<close> and
  \<open>reorderQueue(idx, Math.min(activeQueue.length-1, idx+1))\<close>; the pause button of an
  active roommate; the PIN field of a roommate; the two load buttons; the quick-claim
  buttons of a roommate; the reset link.
\<close>

inductive reachable :: "state \<Rightarrow> bool" where
  r_init: "reachable defaultState"
| r_effect: "reachable s \<Longrightarrow> reachable (ensureEntries s)"
| r_names: "reachable s \<Longrightarrow> reachable (setRoommatesFromInput v s)"
| r_up: "reachable s \<Longrightarrow> idx < length (activeQueue s) \<Longrightarrow>
         reorderQueue (int idx) (max 0 (int idx - 1)) s s = Updated s' \<Longrightarrow> reachable s'"
| r_down: "reachable s \<Longrightarrow> idx < length (activeQueue s) \<Longrightarrow>
         reorderQueue (int idx) (min (int (length (activeQueue s)) - 1) (int idx + 1)) s s = Updated s' \<Longrightarrow>
         reachable s'"
| r_pause: "reachable s \<Longrightarrow> n \<in> set (activeQueue s) \<Longrightarrow> reachable (togglePause n s)"
| r_pin: "reachable s \<Longrightarrow> n \<in> set (roommates s) \<Longrightarrow> reachable (fst (setPin n raw s))"
| r_complete: "reachable s \<Longrightarrow>
         reachable (fst (handleComplete k ansRun pinRun ansUnload pinUnload eid now s))"
| r_claim: "reachable s \<Longrightarrow> n \<in> set (roommates s) \<Longrightarrow>
         reachable (fst (quickClaim k n act pin eid now s))"
| r_reset: "reachable s \<Longrightarrow> reachable (resetCredits confirmed s)"

text \<open>
  What these states have in common. A stored PIN is empty or four to eight digits,
  unless the roster names a property of \<open>Object.prototype\<close>, whose inherited value
  \<open>setRoommatesFromInput\<close> copies into the registry.
\<close>

definition pinsWellFormed :: "state \<Rightarrow> bool" where
  "pinsWellFormed s =
     (\<forall>n v. pins s n = Some v \<longrightarrow>
        (case v of
           Pin p \<Rightarrow> p = [] \<or> pin_format p
         | PinMember k \<Rightarrow> k = n \<and> n \<in> set protoKeys))"

definition queuePartitioned :: "state \<Rightarrow> bool" where
  "queuePartitioned s = (queue s = activeQueue s @ pausedList s)"

definition stateInv :: "state \<Rightarrow> bool" where
  "stateInv s = (pinsWellFormed s \<and> dom (pins s) \<subseteq> set (roommates s)
            \<and> length (history s) \<le> 200 \<and> queuePartitioned s
            \<and> [] \<notin> set (roommates s))"

text \<open>
  A credit to which two halves can be added exactly: a non-negative multiple of 0.5
  that stays below \<open>2^52\<close>.
\<close>

definition exactHalves :: "rat \<Rightarrow> bool" where
  "exactHalves x = (0 \<le> x \<and> x + 1 < 2 ^ 52 \<and> of_int \<lfloor>2 * x\<rfloor> = 2 * x)"

section \<open>Properties\<close>

subsection \<open>Trimming and the PIN format\<close>

lemma trim_Nil [simp]: "trim [] = []"
  by (simp add: trim_def)

lemma digit_not_space: "is_digit c \<Longrightarrow> \<not> is_space c"
  by (auto simp: is_digit_def is_space_def)

lemma trim_id:
  assumes "s = [] \<or> (\<not> is_space (hd s) \<and> \<not> is_space (last s))"
  shows "trim s = s"
proof (cases "s = []")
  case True
  then show ?thesis by simp
next
  case False
  with assms have h: "\<not> is_space (hd s)" and l: "\<not> is_space (last s)" by auto
  have "dropWhile is_space s = s"
    using h by (simp add: dropWhile_eq_self_iff)
  moreover have "dropWhile is_space (rev s) = rev s"
    using l False by (simp add: dropWhile_eq_self_iff hd_rev)
  ultimately show ?thesis by (simp add: trim_def)
qed

lemma pin_format_nonempty: "pin_format p \<Longrightarrow> p \<noteq> []"
  by (auto simp: pin_format_def)

lemma pin_format_trim: "pin_format p \<Longrightarrow> trim p = p"
proof (rule trim_id)
  assume pf: "pin_format p"
  then have ne: "p \<noteq> []" and all: "\<forall>c \<in> set p. is_digit c"
    by (auto simp: pin_format_def list_all_iff)
  from ne all have "is_digit (hd p)" "is_digit (last p)" by auto
  then show "p = [] \<or> (\<not> is_space (hd p) \<and> \<not> is_space (last p))"
    by (simp add: digit_not_space)
qed

subsection \<open>Rounding to a double\<close>

text \<open>
  A non-negative multiple of 0.5 below \<open>2^52\<close> is a double, so rounding leaves it as
  it is; \<open>2^53 + 0.5\<close> lies between two doubles and is rounded down to \<open>2^53\<close>.
\<close>

lemma pow2_pos: "0 < pow2 e"
  by (simp add: pow2_def)

lemma roundHalfEven_int [simp]: "roundHalfEven (of_int z) = z"
  by (simp add: roundHalfEven_def)

lemma ilog2_upper:
  assumes "0 < a" and "a < 2 ^ 52"
  shows "ilog2 a \<le> 51"
proof (cases "1 \<le> a")
  case True
  have "\<lfloor>a\<rfloor> < 2 ^ 52"
    using assms(2) by (simp add: floor_less_iff)
  then have "bitlen \<lfloor>a\<rfloor> \<le> 52"
    by (simp add: bitlen_le_iff_power)
  with True show ?thesis by (simp add: ilog2_def)
next
  case False
  have "0 \<le> bitlen (\<lceil>1 / a\<rceil> - 1)" by (rule bitlen_nonneg)
  with False show ?thesis by (simp add: ilog2_def)
qed

lemma ilog2_lower_half:
  assumes "1 / 2 \<le> a"
  shows "- 1 \<le> ilog2 a"
proof (cases "1 \<le> a")
  case True
  then have "1 \<le> \<lfloor>a\<rfloor>" by (simp add: le_floor_iff)
  then have "1 \<le> bitlen \<lfloor>a\<rfloor>" by (simp add: bitlen_ge_iff_power)
  with True show ?thesis by (simp add: ilog2_def)
next
  case False
  have "0 < a" using assms by simp
  have "1 / a \<le> 2" using assms \<open>0 < a\<close> by (simp add: field_simps)
  then have "\<lceil>1 / a\<rceil> \<le> 2" by (simp add: ceiling_le_iff)
  then have "\<lceil>1 / a\<rceil> - 1 < 2 ^ nat 1" by simp
  then have "bitlen (\<lceil>1 / a\<rceil> - 1) \<le> 1"
    by (simp add: bitlen_le_iff_power)
  with False show ?thesis by (simp add: ilog2_def)
qed

lemma roundDouble_exact:
  assumes "0 \<le> r" and "r < 2 ^ 52" and "of_int \<lfloor>2 * r\<rfloor> = 2 * r"
  shows "roundDouble r = r"
proof (cases "r = 0")
  case True
  then show ?thesis by (simp add: roundDouble_def)
next
  case False
  with assms(1) have pos: "0 < r" by simp
  define k where "k = \<lfloor>2 * r\<rfloor>"
  have k: "of_int k = 2 * r" using assms(3) by (simp add: k_def)
  have "0 < k" using pos k by (metis of_int_0_less_iff zero_less_mult_iff zero_less_numeral)
  then have "1 \<le> k" by simp
  then have "(1::rat) \<le> of_int k" by (metis of_int_1_le_iff)
  then have half: "1 / 2 \<le> r" using k by simp
  define e where "e = max (ilog2 r - 52) (- 1074)"
  have e_hi: "e \<le> - 1" using ilog2_upper [OF pos assms(2)] by (simp add: e_def)
  have e_lo: "- 53 \<le> e" using ilog2_lower_half [OF half] by (simp add: e_def)
  define n where "n = nat (- e - 1)"
  have "nat (- e) = Suc n" using e_hi by (simp add: n_def)
  moreover have "\<not> 0 \<le> e" using e_hi by simp
  ultimately have p: "pow2 e = 1 / 2 ^ Suc n"
    by (simp only: pow2_def if_False)
  have q: "r / pow2 e = of_int (k * 2 ^ n)"
    using k by (simp add: p field_simps)
  have "roundDouble r = of_int (roundHalfEven (r / pow2 e)) * pow2 e"
    using pos by (simp add: roundDouble_def Let_def e_def)
  also have "\<dots> = of_int (k * 2 ^ n) * pow2 e" by (simp only: q roundHalfEven_int)
  also have "\<dots> = r" using k by (simp add: p field_simps)
  finally show ?thesis .
qed

lemma exactHalves_floor: "exactHalves x \<Longrightarrow> of_int \<lfloor>2 * x\<rfloor> = 2 * x"
  unfolding exactHalves_def by blast

lemma shifted_floor:
  assumes "of_int \<lfloor>2 * x\<rfloor> = 2 * x"
  shows "of_int \<lfloor>2 * (x + of_int z / 2)\<rfloor> = 2 * (x + of_int z / 2)"
proof -
  have "2 * (x + of_int z / 2) = 2 * x + of_int z" by simp
  also have "\<dots> = of_int \<lfloor>2 * x\<rfloor> + of_int z" by (simp only: assms)
  also have "\<dots> = of_int (\<lfloor>2 * x\<rfloor> + z)" by simp
  finally have "2 * (x + of_int z / 2) = of_int (\<lfloor>2 * x\<rfloor> + z)" .
  then show ?thesis by (metis floor_of_int)
qed

lemma exactHalves_step:
  assumes h: "exactHalves x"
  shows "roundDouble (x + 1 / 2) = x + 1 / 2"
proof (rule roundDouble_exact)
  show "0 \<le> x + 1 / 2" using h unfolding exactHalves_def by simp
  show "x + 1 / 2 < 2 ^ 52" using h unfolding exactHalves_def by simp
  show "of_int \<lfloor>2 * (x + 1 / 2)\<rfloor> = 2 * (x + 1 / 2)"
    using shifted_floor [OF exactHalves_floor [OF h], of 1] by simp
qed

lemma exactHalves_step2:
  assumes h: "exactHalves x"
  shows "roundDouble (x + 1 / 2 + 1 / 2) = x + 1"
proof -
  have "roundDouble (x + 1) = x + 1"
  proof (rule roundDouble_exact)
    show "0 \<le> x + 1" using h unfolding exactHalves_def by simp
    show "x + 1 < 2 ^ 52" using h unfolding exactHalves_def by simp
    show "of_int \<lfloor>2 * (x + 1)\<rfloor> = 2 * (x + 1)"
      using shifted_floor [OF exactHalves_floor [OF h], of 2] by simp
  qed
  moreover have "x + 1 / 2 + 1 / 2 = x + 1" by simp
  ultimately show ?thesis by (simp only:)
qed

lemma bitlen_2_53: "bitlen (2 ^ 53) = 54"
proof -
  have "bitlen 1 = 1" by (simp add: bitlen_alt_def)
  then show ?thesis using bitlen_pow2 [of 1 53] by simp
qed

lemma round_2_53: "roundDouble (2 ^ 53 + 1 / 2) = 2 ^ 53"
proof -
  have f: "\<lfloor>(18014398509481985::rat) / 2\<rfloor> = 9007199254740992"
    by (rule floor_unique) simp_all
  have b: "bitlen 9007199254740992 = 54" using bitlen_2_53 by simp
  have i: "ilog2 (18014398509481985 / 2) = 53"
    by (simp add: ilog2_def f b)
  have g: "\<lfloor>(18014398509481985::rat) / 4\<rfloor> = 4503599627370496"
    by (rule floor_unique) simp_all
  have r: "roundHalfEven (18014398509481985 / 4) = 4503599627370496"
    by (simp add: roundHalfEven_def Let_def g)
  have "roundDouble (18014398509481985 / 2) = 9007199254740992"
    by (simp add: roundDouble_def Let_def i pow2_def r)
  then show ?thesis by simp
qed


subsection \<open>Reading and writing entries\<close>

lemma jsGet_own [simp]: "m k = Some v \<Longrightarrow> jsGet m k = Own v"
  by (simp add: jsGet_def)

lemma jsGet_update [simp]: "jsGet (m(k \<mapsto> v)) n = (if n = k then Own v else jsGet m n)"
  by (simp add: jsGet_def)

lemma jsGet_plain: "m k = None \<Longrightarrow> k \<notin> set protoKeys \<Longrightarrow> jsGet m k = Missing"
  by (simp add: jsGet_def)

lemma jsGet_Missing_iff: "jsGet m k = Missing \<longleftrightarrow> m k = None \<and> k \<notin> set protoKeys"
  by (simp add: jsGet_def split: option.splits)

lemma jsGet_Own_iff: "jsGet m k = Own v \<longleftrightarrow> m k = Some v"
  by (simp add: jsGet_def split: option.splits)

lemma jsGet_Inherited_iff: "jsGet m k = Inherited j \<longleftrightarrow> m k = None \<and> k \<in> set protoKeys \<and> j = k"
  by (auto simp: jsGet_def split: option.splits)

lemma jsSet_plain: "jsGet m k \<noteq> Inherited k \<Longrightarrow> jsSet m k v = m(k \<mapsto> v)"
  by (auto simp: jsSet_def jsGet_def protoKeys_def split: option.splits)

lemma jsSet_other: "n \<noteq> k \<Longrightarrow> jsSet m k v n = m n"
  by (simp add: jsSet_def)

lemma isPaused_update: "isPaused (p(x \<mapsto> b)) n = (if n = x then b else isPaused p n)"
  by (simp add: isPaused_def)

subsection \<open>The PIN gate\<close>

text \<open>
  What \<open>requirePinFor\<close> decides when the PIN it reads is a string: both the stored PIN
  and the answer are trimmed before they are compared. When it reads a member of
  \<open>Object.prototype\<close> it throws.
\<close>

lemma requirePinFor_string:
  assumes "pinOf ps name = Pin p"
  shows "requirePinFor ps name e
           = (if trim p = [] \<or> map_option trim e = Some (trim p) then Allowed else Denied)"
  using assms by (simp add: requirePinFor_def Let_def)

lemma requirePinFor_member:
  assumes "pinOf ps name = PinMember k"
  shows "requirePinFor ps name e = Threw"
  using assms by (simp add: requirePinFor_def)

lemma pinOf_none: "ps name = None \<Longrightarrow> name \<notin> set protoKeys \<Longrightarrow> pinOf ps name = Pin []"
  by (simp add: pinOf_def jsGet_def)

lemma pinOf_some: "ps name = Some v \<Longrightarrow> pinOf ps name = v"
  by (simp add: pinOf_def)

lemma pinOf_inherited: "ps name = None \<Longrightarrow> name \<in> set protoKeys \<Longrightarrow> pinOf ps name = PinMember name"
  by (simp add: pinOf_def jsGet_def)

text \<open>
  C8. \<open>setPin(name, c)\<close> trims \<open>c\<close>. A trimmed value that is not empty and is not four
  to eight digits raises the alert and leaves the whole state, so \<open>pins[name]\<close> too, as
  it was; a trimmed value of four to eight digits is stored; an empty trimmed value is
  stored as the empty PIN. \<open>"123"\<close> is refused and \<open>"12345"\<close> is stored.
\<close>

theorem setPin_spec:
  "(trim c \<noteq> [] \<and> \<not> pin_format (trim c) \<longrightarrow> setPin name c s = (s, Some PIN_must_be_4_8_digits))
   \<and> (pin_format (trim c) \<longrightarrow> setPin name c s = (s\<lparr>pins := (pins s)(name \<mapsto> Pin (trim c))\<rparr>, None))
   \<and> (trim c = [] \<longrightarrow> setPin name c s = (s\<lparr>pins := (pins s)(name \<mapsto> Pin [])\<rparr>, None))
   \<and> setPin name ''123'' s = (s, Some PIN_must_be_4_8_digits)
   \<and> setPin name ''12345'' s = (s\<lparr>pins := (pins s)(name \<mapsto> Pin ''12345'')\<rparr>, None)"
proof (intro conjI impI)
  show "setPin name ''123'' s = (s, Some PIN_must_be_4_8_digits)"
    by (simp add: setPin_def trim_def is_space_def pin_format_def)
  show "setPin name ''12345'' s = (s\<lparr>pins := (pins s)(name \<mapsto> Pin ''12345'')\<rparr>, None)"
    by (simp add: setPin_def trim_def is_space_def pin_format_def is_digit_def)
qed (simp_all add: setPin_def Let_def)

theorem setPin_spec_witness:
  "trim '' 12a4 '' \<noteq> [] \<and> \<not> pin_format (trim '' 12a4 '')
   \<and> setPin ''A'' '' 12a4 '' defaultState = (defaultState, Some PIN_must_be_4_8_digits)
   \<and> pin_format (trim '' 987654 '')
   \<and> pins (fst (setPin ''A'' '' 987654 '' defaultState)) ''A'' = Some (Pin ''987654'')
   \<and> trim ''  '' = []
   \<and> pins (fst (setPin ''A'' ''  '' (fst (setPin ''A'' ''1234'' defaultState)))) ''A'' = Some (Pin [])"
  using setPin_spec [of "'' 12a4 ''" "''A''" defaultState]
    setPin_spec [of "'' 987654 ''" "''A''" defaultState]
    setPin_spec [of "''  ''" "''A''" "fst (setPin ''A'' ''1234'' defaultState)"]
  by (simp add: trim_def is_space_def pin_format_def is_digit_def)

subsection \<open>The credit ledger and the history\<close>

lemma addCredits_credits:
  "credits (addCredits a b k eid now s) =
     (let c1 = (if a \<noteq> [] then jsSet (credits s) a (plusHalf (creditOf (credits s) a)) else credits s)
      in if b \<noteq> [] then jsSet c1 b (plusHalf (creditOf c1 b)) else c1)"
  by (simp add: addCredits_def Let_def)

lemma addCredits_other [simp]:
  "roommates (addCredits a b k eid now s) = roommates s"
  "queue (addCredits a b k eid now s) = queue s"
  "paused (addCredits a b k eid now s) = paused s"
  "pins (addCredits a b k eid now s) = pins s"
  by (simp_all add: addCredits_def Let_def)

lemma advanceQueue_other [simp]:
  "roommates (advanceQueue snap s) = roommates s"
  "paused (advanceQueue snap s) = paused s"
  "credits (advanceQueue snap s) = credits s"
  "history (advanceQueue snap s) = history s"
  "pins (advanceQueue snap s) = pins s"
  by (simp_all add: advanceQueue_def)

lemma addCredits_history:
  "history (addCredits a b k eid now s) = take 200 (mkEntry eid now k a b # history s)"
  by (simp add: addCredits_def Let_def)

lemma creditOf_Num_cases:
  assumes "creditOf c n = Num x"
  shows "jsGet c n \<noteq> Inherited n" and "c n = None \<Longrightarrow> x = 0"
  using assms by (auto simp: creditOf_def jsGet_def split: option.splits if_splits)

lemma creditOf_update: "creditOf (c(k \<mapsto> v)) n = (if n = k then v else creditOf c n)"
  by (simp add: creditOf_def)

text \<open>One increment of a numeric entry that leaves room: the entry is written, exactly.\<close>

lemma increment_exact:
  assumes "creditOf c n = Num x" and "0 \<le> x" and "x + 1 / 2 < 2 ^ 52"
    and "of_int \<lfloor>2 * x\<rfloor> = 2 * x"
  shows "jsSet c n (plusHalf (creditOf c n)) = c(n \<mapsto> Num (x + 1 / 2))"
proof -
  have "roundDouble (x + 1 / 2) = x + 1 / 2"
  proof (rule roundDouble_exact)
    show "0 \<le> x + 1 / 2" using assms(2) by simp
    show "x + 1 / 2 < 2 ^ 52" by (rule assms(3))
    show "of_int \<lfloor>2 * (x + 1 / 2)\<rfloor> = 2 * (x + 1 / 2)"
      using shifted_floor [OF assms(4), of 1] by simp
  qed
  then have "plusHalf (creditOf c n) = Num (x + 1 / 2)"
    by (simp add: plusHalf_def assms(1))
  moreover have "jsSet c n (Num (x + 1 / 2)) = c(n \<mapsto> Num (x + 1 / 2))"
    by (rule jsSet_plain) (rule creditOf_Num_cases(1) [OF assms(1)])
  ultimately show ?thesis by simp
qed

text \<open>Two increments of numeric entries that leave room.\<close>

lemma addCredits_numbers:
  assumes "a \<noteq> []" and "b \<noteq> []"
    and "creditOf (credits s) a = Num x" and "exactHalves x"
    and "creditOf (credits s) b = Num y" and "exactHalves y"
  shows "credits (addCredits a b k eid now s) a = Some (Num (x + (if a = b then 1 else 1 / 2)))
       \<and> credits (addCredits a b k eid now s) b = Some (Num (y + (if a = b then 1 else 1 / 2)))
       \<and> (\<forall>n. n \<noteq> a \<and> n \<noteq> b \<longrightarrow> credits (addCredits a b k eid now s) n = credits s n)
       \<and> (credits s a = None \<longrightarrow> x = 0)
       \<and> (credits s b = None \<longrightarrow> y = 0)"
proof -
  let ?c1 = "(credits s)(a \<mapsto> Num (x + 1 / 2))"
  have hx: "0 \<le> x" "x + 1 / 2 < 2 ^ 52" "of_int \<lfloor>2 * x\<rfloor> = 2 * x"
    and hy: "0 \<le> y" "y + 1 / 2 < 2 ^ 52" "of_int \<lfloor>2 * y\<rfloor> = 2 * y"
    using assms(4,6) unfolding exactHalves_def by simp_all
  have c1: "jsSet (credits s) a (plusHalf (creditOf (credits s) a)) = ?c1"
    by (rule increment_exact [OF assms(3) hx])
  have res: "credits (addCredits a b k eid now s)
      = jsSet ?c1 b (plusHalf (creditOf ?c1 b))"
    using assms(1,2) by (simp add: addCredits_credits Let_def c1)
  have z: "credits s a = None \<longrightarrow> x = 0" "credits s b = None \<longrightarrow> y = 0"
    using creditOf_Num_cases(2) [OF assms(3)] creditOf_Num_cases(2) [OF assms(5)] by blast+
  show ?thesis
  proof (cases "a = b")
    case True
    then have xy: "y = x" using assms(3,5) by simp
    have g: "creditOf ?c1 b = Num (x + 1 / 2)" using True by (simp add: creditOf_update)
    have "jsSet ?c1 b (plusHalf (creditOf ?c1 b)) = ?c1(b \<mapsto> Num (x + 1 / 2 + 1 / 2))"
    proof (rule increment_exact [OF g])
      show "0 \<le> x + 1 / 2" using hx(1) by simp
      show "x + 1 / 2 + 1 / 2 < 2 ^ 52" using assms(4) unfolding exactHalves_def by simp
      show "of_int \<lfloor>2 * (x + 1 / 2)\<rfloor> = 2 * (x + 1 / 2)"
        using shifted_floor [OF hx(3), of 1] by simp
    qed
    moreover have "x + 1 / 2 + 1 / 2 = x + 1" by simp
    ultimately have "credits (addCredits a b k eid now s) = ?c1(b \<mapsto> Num (x + 1))"
      by (simp only: res)
    then show ?thesis using True xy z by simp
  next
    case False
    then have g: "creditOf ?c1 b = Num y" using assms(5) by (simp add: creditOf_update)
    have "jsSet ?c1 b (plusHalf (creditOf ?c1 b)) = ?c1(b \<mapsto> Num (y + 1 / 2))"
      by (rule increment_exact [OF g hy])
    then have "credits (addCredits a b k eid now s) = ?c1(b \<mapsto> Num (y + 1 / 2))"
      by (simp add: res)
    then show ?thesis using False z by simp
  qed
qed

text \<open>
  C3, as the claim states it, fails: credits are doubles, and from \<open>2^53\<close> on a double
  plus 0.5 is the same double. A ledger entry of \<open>2^53\<close> is left as it is.
\<close>

theorem addCredits_counterexample:
  "''A'' \<noteq> [] \<and> ''B'' \<noteq> []
   \<and> credits (defaultState\<lparr>credits := [''A'' \<mapsto> Num (2 ^ 53)]\<rparr>) ''A'' = Some (Num (2 ^ 53))
   \<and> credits (addCredits ''A'' ''B'' ThreePM ''x1'' ''t1''
        (defaultState\<lparr>credits := [''A'' \<mapsto> Num (2 ^ 53)]\<rparr>)) ''A'' = Some (Num (2 ^ 53))
   \<and> Num (2 ^ 53) \<noteq> Num (2 ^ 53 + 1 / 2)"
proof -
  have "plusHalf (Num (2 ^ 53)) = Num (2 ^ 53)"
    using round_2_53 by (simp add: plusHalf_def)
  then have "credits (addCredits ''A'' ''B'' ThreePM ''x1'' ''t1''
        (defaultState\<lparr>credits := [''A'' \<mapsto> Num (2 ^ 53)]\<rparr>)) ''A'' = Some (Num (2 ^ 53))"
    by (simp add: addCredits_credits Let_def creditOf_def jsSet_def del: power_numeral)
  then show ?thesis by simp
qed

text \<open>
  C3, amended. Take names \<open>a\<close> and \<open>b\<close> that are not empty and whose ledger entries
  read as numbers (a missing entry reads as 0), each a non-negative multiple of 0.5 that
  stays below \<open>2^52\<close> after two increments. Then \<open>addCredits\<close> leaves the entry of \<open>a\<close>
  and the entry of \<open>b\<close> in the ledger, each raised by exactly 0.5, or by exactly 1.0
  when \<open>a = b\<close>, and changes no other entry. The function is total: it has no failing
  branch. (Nothing is said here of a name that reads as a property every object
  inherits.)
\<close>

theorem addCredits_spec:
  assumes "a \<noteq> []" and "b \<noteq> []"
    and "creditOf (credits s) a = Num x" and "exactHalves x"
    and "creditOf (credits s) b = Num y" and "exactHalves y"
  shows "credits (addCredits a b k eid now s) a = Some (Num (x + (if a = b then 1 else 1 / 2)))
       \<and> credits (addCredits a b k eid now s) b = Some (Num (y + (if a = b then 1 else 1 / 2)))
       \<and> (\<forall>n. n \<noteq> a \<and> n \<noteq> b \<longrightarrow> credits (addCredits a b k eid now s) n = credits s n)
       \<and> (credits s a = None \<longrightarrow> x = 0)
       \<and> (credits s b = None \<longrightarrow> y = 0)"
  using assms by (rule addCredits_numbers)

lemma exactHalves_0: "exactHalves 0"
  by (simp add: exactHalves_def)

lemma exactHalves_half: "exactHalves (1 / 2)"
  by (simp add: exactHalves_def)

theorem addCredits_spec_witness:
  "''A'' \<noteq> [] \<and> ''B'' \<noteq> []
   \<and> creditOf (credits defaultState) ''A'' = Num 0 \<and> exactHalves 0
   \<and> creditOf (credits defaultState) ''B'' = Num 0
   \<and> credits defaultState ''A'' = None
   \<and> credits (addCredits ''A'' ''B'' ThreePM ''x1'' ''t1'' defaultState) ''A'' = Some (Num (1 / 2))
   \<and> credits (addCredits ''A'' ''B'' ThreePM ''x1'' ''t1'' defaultState) ''B'' = Some (Num (1 / 2))
   \<and> ''C'' \<noteq> ''A'' \<and> ''C'' \<noteq> ''B''
   \<and> credits (addCredits ''A'' ''B'' ThreePM ''x1'' ''t1'' defaultState) ''C'' = None
   \<and> creditOf (credits (addCredits ''A'' ''B'' ThreePM ''x1'' ''t1'' defaultState)) ''A'' = Num (1 / 2)
   \<and> exactHalves (1 / 2)
   \<and> credits (addCredits ''A'' ''A'' Night ''x2'' ''t2''
        (addCredits ''A'' ''B'' ThreePM ''x1'' ''t1'' defaultState)) ''A'' = Some (Num (3 / 2))"
proof -
  let ?s1 = "addCredits ''A'' ''B'' ThreePM ''x1'' ''t1'' defaultState"
  have ne: "''A'' \<noteq> []" "''B'' \<noteq> []" by simp_all
  have n: "credits defaultState ''A'' = None" "credits defaultState ''C'' = None"
    by (simp_all add: defaultState_def)
  have c0: "creditOf (credits defaultState) ''A'' = Num 0"
    "creditOf (credits defaultState) ''B'' = Num 0"
    by (simp_all add: creditOf_def jsGet_def protoKeys_def defaultState_def)
  note t1 = addCredits_spec [OF ne c0(1) exactHalves_0 c0(2) exactHalves_0,
      of ThreePM "''x1''" "''t1''"]
  from t1 have a1: "credits ?s1 ''A'' = Some (Num (1 / 2))"
    and b1: "credits ?s1 ''B'' = Some (Num (1 / 2))"
    by simp_all
  from t1 n(2) have d1: "credits ?s1 ''C'' = None" by simp
  have c1: "creditOf (credits ?s1) ''A'' = Num (1 / 2)"
    by (simp add: creditOf_def a1)
  note t2 = addCredits_spec [OF ne(1) ne(1) c1 exactHalves_half c1 exactHalves_half,
      of Night "''x2''" "''t2''"]
  from t2 have a2: "credits (addCredits ''A'' ''A'' Night ''x2'' ''t2'' ?s1) ''A'' = Some (Num (3 / 2))"
    by simp
  show ?thesis
    by (intro conjI) (simp_all add: c0 n a1 b1 d1 c1 a2 exactHalves_0 exactHalves_half)
qed

text \<open>
  The names this leaves out. A name that no entry holds and every object inherits
  reads as the inherited function, so the entry becomes a string; for \<open>__proto__\<close> the
  assignment is swallowed and no entry appears.
\<close>

lemma addCredits_inherited:
  "credits (addCredits ''toString'' ''toString'' k eid now defaultState) ''toString''
     = Some (Joined (Joined (Member ''toString'')))"
  "credits (addCredits ''__proto__'' ''__proto__'' k eid now defaultState) ''__proto__'' = None"
  by (simp_all add: addCredits_credits Let_def creditOf_def jsGet_def jsSet_def protoKeys_def
      plusHalf_def defaultState_def)

lemma take_append_take: "take n (xs @ take n ys) = take n (xs @ ys)"
  by (simp add: min_def)

lemma fold_take_front:
  assumes step: "\<And>c s. h (f c s) = take n (e c # h s)"
  shows "h (fold f cs s) = (if cs = [] then h s else take n (rev (map e cs) @ h s))"
proof (induction cs arbitrary: s)
  case Nil
  then show ?case by simp
next
  case (Cons c cs)
  show ?case
  proof (cases "cs = []")
    case True
    then show ?thesis by (simp add: step)
  next
    case False
    have "h (fold f (c # cs) s) = take n (rev (map e cs) @ take n (e c # h s))"
      using False by (simp add: Cons.IH step)
    also have "\<dots> = take n (rev (map e cs) @ e c # h s)"
      by (rule take_append_take)
    finally show ?thesis by simp
  qed
qed

lemma history_fold:
  "history (fold (\<lambda>(a, b, k, eid, now). addCredits a b k eid now) cs s) =
     (if cs = [] then history s
      else take 200 (rev (map (\<lambda>(a, b, k, eid, now). mkEntry eid now k a b) cs) @ history s))"
  by (rule fold_take_front) (auto simp: addCredits_history)

subsection \<open>Completing a load\<close>

lemma orDefault_nonempty: "d \<noteq> [] \<Longrightarrow> orDefault a d \<noteq> []"
  by (auto simp: orDefault_def split: option.splits)

lemma handleComplete_unfold:
  assumes "r = orDefault (map_option trim ansRun) (defaultName s)" and "r \<noteq> []"
    and "u = orDefault (map_option trim ansUnload) r"
  shows "handleComplete k ansRun pinRun ansUnload pinUnload eid now s
           = (case requirePinFor (pins s) r pinRun of
                Threw \<Rightarrow> (s, Some Uncaught_TypeError)
              | Denied \<Rightarrow> (s, Some Incorrect_PIN)
              | Allowed \<Rightarrow>
                  (case requirePinFor (pins s) u pinUnload of
                     Threw \<Rightarrow> (s, Some Uncaught_TypeError)
                   | Denied \<Rightarrow> (s, Some Incorrect_PIN)
                   | Allowed \<Rightarrow> (advanceQueue s (addCredits r u k eid now s), None)))"
proof -
  have u: "u \<noteq> []" using assms(2,3) by (simp add: orDefault_nonempty)
  show ?thesis
    using assms u
    by (simp add: handleComplete_def completeLoad_def Let_def split: gate.splits)
qed

lemma handleComplete_granted:
  assumes "r = orDefault (map_option trim ansRun) (defaultName s)" and "r \<noteq> []"
    and "u = orDefault (map_option trim ansUnload) r"
    and "requirePinFor (pins s) r pinRun = Allowed"
    and "requirePinFor (pins s) u pinUnload = Allowed"
  shows "handleComplete k ansRun pinRun ansUnload pinUnload eid now s
           = (advanceQueue s (addCredits r u k eid now s), None)"
  by (simp add: handleComplete_unfold [OF assms(1,2,3)] assms(4,5))

text \<open>
  C1. In \<open>handleComplete\<close> let \<open>r\<close> be the runner's name (the trimmed answer, or the
  default name) and \<open>u\<close> the unloader's name (the trimmed answer, or \<open>r\<close>). When the
  PIN check does not pass for the runner, or passes for the runner and not for the
  unloader, the handler returns the state it was given: credits, queue, history and
  every other field are as before. When the check that stops it returns \<open>false\<close>, the
  handler has raised the alert \<open>Incorrect PIN.\<close>; when that check throws, the
  \<open>TypeError\<close> leaves the handler.
\<close>

theorem handleComplete_denied:
  assumes "r = orDefault (map_option trim ansRun) (defaultName s)" and "r \<noteq> []"
    and "u = orDefault (map_option trim ansUnload) r"
    and "requirePinFor (pins s) r pinRun \<noteq> Allowed \<or> requirePinFor (pins s) u pinUnload \<noteq> Allowed"
  shows "fst (handleComplete k ansRun pinRun ansUnload pinUnload eid now s) = s
       \<and> (requirePinFor (pins s) r pinRun = Denied
            \<or> (requirePinFor (pins s) r pinRun = Allowed \<and> requirePinFor (pins s) u pinUnload = Denied)
          \<longrightarrow> handleComplete k ansRun pinRun ansUnload pinUnload eid now s = (s, Some Incorrect_PIN))
       \<and> (requirePinFor (pins s) r pinRun = Threw
            \<or> (requirePinFor (pins s) r pinRun = Allowed \<and> requirePinFor (pins s) u pinUnload = Threw)
          \<longrightarrow> handleComplete k ansRun pinRun ansUnload pinUnload eid now s = (s, Some Uncaught_TypeError))"
  using assms(4)
  by (cases "requirePinFor (pins s) r pinRun"; cases "requirePinFor (pins s) u pinUnload")
    (simp_all add: handleComplete_unfold [OF assms(1,2,3)])

lemma defaultName_default: "defaultName defaultState = ''A''"
  by (simp add: defaultName_def current_def activeQueue_def defaultState_def isPaused_def
      jsGet_def protoKeys_def)

theorem handleComplete_denied_witness:
  "''A'' = orDefault (map_option trim (Some ''A'')) (defaultName (defaultState\<lparr>pins := [''A'' \<mapsto> Pin ''1234'']\<rparr>))
   \<and> ''A'' \<noteq> []
   \<and> ''B'' = orDefault (map_option trim (Some ''B'')) ''A''
   \<and> requirePinFor (pins (defaultState\<lparr>pins := [''A'' \<mapsto> Pin ''1234'']\<rparr>)) ''A'' (Some ''0000'') = Denied
   \<and> handleComplete ThreePM (Some ''A'') (Some ''0000'') (Some ''B'') None ''x1'' ''t1''
        (defaultState\<lparr>pins := [''A'' \<mapsto> Pin ''1234'']\<rparr>)
      = (defaultState\<lparr>pins := [''A'' \<mapsto> Pin ''1234'']\<rparr>, Some Incorrect_PIN)
   \<and> requirePinFor (pins (defaultState\<lparr>pins := [''A'' \<mapsto> Pin ''1234'']\<rparr>)) ''B'' None = Allowed
   \<and> handleComplete Night (Some ''B'') None (Some ''A'') (Some ''0000'') ''x1'' ''t1''
        (defaultState\<lparr>pins := [''A'' \<mapsto> Pin ''1234'']\<rparr>)
      = (defaultState\<lparr>pins := [''A'' \<mapsto> Pin ''1234'']\<rparr>, Some Incorrect_PIN)
   \<and> requirePinFor (pins (defaultState\<lparr>pins := [''A'' \<mapsto> Pin ''1234'']\<rparr>)) ''toString'' None = Threw
   \<and> handleComplete Night (Some ''toString'') None None None ''x1'' ''t1''
        (defaultState\<lparr>pins := [''A'' \<mapsto> Pin ''1234'']\<rparr>)
      = (defaultState\<lparr>pins := [''A'' \<mapsto> Pin ''1234'']\<rparr>, Some Uncaught_TypeError)"
proof -
  let ?s = "defaultState\<lparr>pins := [''A'' \<mapsto> Pin ''1234'']\<rparr>"
  have a: "''A'' = orDefault (map_option trim (Some ''A'')) (defaultName ?s)"
    by (simp add: orDefault_def trim_def is_space_def)
  have b: "''B'' = orDefault (map_option trim (Some ''B'')) ''A''"
    by (simp add: orDefault_def trim_def is_space_def)
  have b': "''B'' = orDefault (map_option trim (Some ''B'')) (defaultName ?s)"
    by (simp add: orDefault_def trim_def is_space_def)
  have a': "''A'' = orDefault (map_option trim (Some ''A'')) ''B''"
    by (simp add: orDefault_def trim_def is_space_def)
  have t: "''toString'' = orDefault (map_option trim (Some ''toString'')) (defaultName ?s)"
    by (simp add: orDefault_def trim_def is_space_def)
  have t': "''toString'' = orDefault (map_option trim None) ''toString''"
    by (simp add: orDefault_def)
  have d: "requirePinFor (pins ?s) ''A'' (Some ''0000'') = Denied"
    by (simp add: requirePinFor_def pinOf_def trim_def is_space_def)
  have g: "requirePinFor (pins ?s) ''B'' None = Allowed"
    by (simp add: requirePinFor_def pinOf_def jsGet_def protoKeys_def)
  have x: "requirePinFor (pins ?s) ''toString'' None = Threw"
    by (simp add: requirePinFor_def pinOf_def jsGet_def protoKeys_def)
  have ne: "''A'' \<noteq> []" "''B'' \<noteq> []" "''toString'' \<noteq> []" by simp_all
  have d1: "requirePinFor (pins ?s) ''A'' (Some ''0000'') \<noteq> Allowed
      \<or> requirePinFor (pins ?s) ''B'' None \<noteq> Allowed"
    unfolding d by simp
  have d2: "requirePinFor (pins ?s) ''B'' None \<noteq> Allowed
      \<or> requirePinFor (pins ?s) ''A'' (Some ''0000'') \<noteq> Allowed"
    unfolding d by simp
  have d3: "requirePinFor (pins ?s) ''toString'' None \<noteq> Allowed
      \<or> requirePinFor (pins ?s) ''toString'' None \<noteq> Allowed"
    unfolding x by simp
  from handleComplete_denied [OF a ne(1) b d1, of ThreePM "''x1''" "''t1''"] d
  have r1: "handleComplete ThreePM (Some ''A'') (Some ''0000'') (Some ''B'') None ''x1'' ''t1'' ?s
      = (?s, Some Incorrect_PIN)"
    by blast
  from handleComplete_denied [OF b' ne(2) a' d2, of Night "''x1''" "''t1''"] d g
  have r2: "handleComplete Night (Some ''B'') None (Some ''A'') (Some ''0000'') ''x1'' ''t1'' ?s
      = (?s, Some Incorrect_PIN)"
    by blast
  from handleComplete_denied [OF t ne(3) t' d3, of Night "''x1''" "''t1''"] x
  have r3: "handleComplete Night (Some ''toString'') None None None ''x1'' ''t1'' ?s
      = (?s, Some Uncaught_TypeError)"
    by blast
  from a ne(1) b d r1 g r2 x r3 show ?thesis by blast
qed

subsection \<open>Invariants of the reachable states\<close>

lemma foldl_upd:
  "foldl (\<lambda>acc n. acc(n \<mapsto> f n)) m xs = (\<lambda>n. if n \<in> set xs then Some (f n) else m n)"
  by (induction xs arbitrary: m) (auto simp: fun_eq_iff)

lemma foldl_fill:
  "foldl (\<lambda>c r. if jsGet c r = Missing then jsSet c r v else c) m xs
     = (\<lambda>n. if jsGet m n = Missing \<and> n \<in> set xs then Some v else m n)"
proof (induction xs arbitrary: m)
  case Nil
  then show ?case by simp
next
  case (Cons x xs)
  let ?f = "\<lambda>c r. if jsGet c r = Missing then jsSet c r v else c"
  show ?case
  proof (cases "jsGet m x = Missing")
    case True
    then have "jsSet m x v = m(x \<mapsto> v)" by (simp add: jsSet_plain)
    with True have "foldl ?f m (x # xs) = foldl ?f (m(x \<mapsto> v)) xs" by simp
    also have "\<dots> = (\<lambda>n. if jsGet (m(x \<mapsto> v)) n = Missing \<and> n \<in> set xs then Some v
                         else (m(x \<mapsto> v)) n)"
      by (rule Cons.IH)
    also have "\<dots> = (\<lambda>n. if jsGet m n = Missing \<and> n \<in> set (x # xs) then Some v else m n)"
      using True by (auto simp: fun_eq_iff)
    finally show ?thesis .
  next
    case False
    then have "foldl ?f m (x # xs) = foldl ?f m xs" by simp
    also have "\<dots> = (\<lambda>n. if jsGet m n = Missing \<and> n \<in> set xs then Some v else m n)"
      by (rule Cons.IH)
    also have "\<dots> = (\<lambda>n. if jsGet m n = Missing \<and> n \<in> set (x # xs) then Some v else m n)"
      using False by (auto simp: fun_eq_iff)
    finally show ?thesis .
  qed
qed

lemma parseNames_nonempty: "[] \<notin> set (parseNames v)"
  by (simp add: parseNames_def)

lemma partitionedI:
  assumes "\<forall>x \<in> set xs. \<not> isPaused (paused s') x"
    and "\<forall>x \<in> set ys. isPaused (paused s') x"
    and "queue s' = xs @ ys"
  shows "queuePartitioned s'"
proof -
  have "filter (\<lambda>n. \<not> isPaused (paused s') n) xs = xs" "filter (isPaused (paused s')) xs = []"
    "filter (\<lambda>n. \<not> isPaused (paused s') n) ys = []" "filter (isPaused (paused s')) ys = ys"
    using assms(1,2) by (auto simp: filter_empty_conv filter_id_conv)
  then show ?thesis
    by (simp add: queuePartitioned_def activeQueue_def pausedList_def assms(3))
qed

lemma active_not_paused: "x \<in> set (activeQueue s) \<Longrightarrow> \<not> isPaused (paused s) x"
  by (simp add: activeQueue_def)

lemma pausedList_paused: "x \<in> set (pausedList s) \<Longrightarrow> isPaused (paused s) x"
  by (simp add: pausedList_def)

lemma set_spliceIn: "set (spliceIn i v xs) = insert v (set xs)"
proof -
  have "set (take k xs) \<union> set (drop k xs) = set xs" for k
    by (metis append_take_drop_id set_append)
  then show ?thesis by (auto simp: spliceIn_def Let_def)
qed

lemma spliceOut_sets:
  assumes "spliceOut i xs = (m, rest)"
  shows "set rest \<subseteq> set xs" and "m = Some v \<Longrightarrow> v \<in> set xs"
proof -
  show "set rest \<subseteq> set xs"
    using assms by (auto simp: spliceOut_def Let_def dest: in_set_takeD in_set_dropD)
  show "m = Some v \<Longrightarrow> v \<in> set xs"
    using assms by (auto simp: spliceOut_def Let_def split: if_splits)
qed

lemma inv_default: "stateInv defaultState"
  by (simp add: stateInv_def pinsWellFormed_def queuePartitioned_def activeQueue_def pausedList_def
      defaultState_def isPaused_def jsGet_def protoKeys_def)

lemma inv_ensureEntries:
  assumes i: "stateInv s"
  shows "stateInv (ensureEntries s)"
proof -
  let ?s' = "ensureEntries s"
  have p: "pins ?s' = (\<lambda>n. if jsGet (pins s) n = Missing \<and> n \<in> set (roommates s)
                               then Some (Pin []) else pins s n)"
    by (simp add: ensureEntries_def foldl_fill)
  have "pinsWellFormed ?s'"
    using i unfolding stateInv_def pinsWellFormed_def p by (auto split: if_splits)
  moreover have "dom (pins ?s') \<subseteq> set (roommates ?s')"
  proof
    fix x assume "x \<in> dom (pins ?s')"
    then have "x \<in> set (roommates s) \<or> x \<in> dom (pins s)"
      unfolding p by (auto split: if_splits)
    moreover have "dom (pins s) \<subseteq> set (roommates s)" using i by (simp add: stateInv_def)
    ultimately show "x \<in> set (roommates ?s')" by (auto simp: ensureEntries_def)
  qed
  moreover have "queuePartitioned ?s'"
    using i by (simp add: stateInv_def ensureEntries_def queuePartitioned_def activeQueue_def pausedList_def)
  ultimately show ?thesis
    using i by (simp add: stateInv_def ensureEntries_def)
qed

lemma inv_setRoommates: "stateInv s \<Longrightarrow> stateInv (setRoommatesFromInput v s)"
proof (cases "parseNames v = []")
  case True
  then show "stateInv s \<Longrightarrow> ?thesis" by (simp add: setRoommatesFromInput_def)
next
  case False
  assume i: "stateInv s"
  let ?s' = "setRoommatesFromInput v s"
  have p: "pins ?s' = (\<lambda>n. if n \<in> set (parseNames v) then Some (pinOf (pins s) n) else None)"
    using False by (simp add: setRoommatesFromInput_def foldl_upd Let_def)
  have "pinsWellFormed ?s'"
    using i unfolding stateInv_def pinsWellFormed_def p
    by (auto simp: pinOf_def jsGet_def split: option.splits if_splits pinval.splits)
  moreover have "dom (pins ?s') \<subseteq> set (roommates ?s')"
    using False unfolding p by (auto simp: setRoommatesFromInput_def Let_def split: if_splits)
  moreover have "length (history ?s') \<le> 200"
    using i False by (simp add: stateInv_def setRoommatesFromInput_def Let_def)
  moreover have "queuePartitioned ?s'"
    by (rule partitionedI [where xs = "queue ?s'" and ys = "[]"])
      (use False in \<open>auto simp: setRoommatesFromInput_def Let_def\<close>)
  moreover have "[] \<notin> set (roommates ?s')"
    using False parseNames_nonempty [of v] by (simp add: setRoommatesFromInput_def Let_def)
  ultimately show ?thesis by (simp add: stateInv_def)
qed

lemma inv_queue_update:
  assumes "stateInv s" and "set xs \<subseteq> set (activeQueue s)"
  shows "stateInv (s\<lparr>queue := xs @ pausedList s\<rparr>)"
proof -
  have "queuePartitioned (s\<lparr>queue := xs @ pausedList s\<rparr>)"
    by (rule partitionedI [where xs = xs and ys = "pausedList s"])
      (use assms(2) in \<open>auto dest: active_not_paused pausedList_paused\<close>)
  then show ?thesis using assms(1) by (simp add: stateInv_def pinsWellFormed_def)
qed

lemma inv_reorderQueue:
  assumes "stateInv s" and "reorderQueue i j s s = Updated s'"
  shows "stateInv s'"
proof (cases "i = j")
  case True
  then show ?thesis using assms by (simp add: reorderQueue_def)
next
  case False
  obtain m rest where so: "spliceOut i (activeQueue s) = (m, rest)" by force
  with assms(2) False obtain v where m: "m = Some v"
    and s': "s' = s\<lparr>queue := spliceIn j v rest @ pausedList s\<rparr>"
    by (cases m) (auto simp: reorderQueue_def)
  have "set (spliceIn j v rest) \<subseteq> set (activeQueue s)"
    using spliceOut_sets [OF so] m by (auto simp: set_spliceIn)
  then show ?thesis unfolding s' by (rule inv_queue_update [OF assms(1)])
qed

lemma inv_advanceQueue: "stateInv s \<Longrightarrow> stateInv (advanceQueue s s)"
proof (cases "activeQueue s = []")
  case True
  then show "stateInv s \<Longrightarrow> ?thesis" by (simp add: advanceQueue_def)
next
  case False
  assume i: "stateInv s"
  have "set (tl (activeQueue s) @ [hd (activeQueue s)]) \<subseteq> set (activeQueue s)"
    using False by (cases "activeQueue s") auto
  from inv_queue_update [OF i this] False show ?thesis by (simp add: advanceQueue_def)
qed

lemma inv_togglePause: "stateInv s \<Longrightarrow> stateInv (togglePause n s)"
proof -
  assume i: "stateInv s"
  let ?s' = "togglePause n s"
  have "queuePartitioned ?s'"
    by (rule partitionedI [where xs = "filter (\<lambda>x. \<not> isPaused (paused ?s') x) (queue s)"
          and ys = "filter (isPaused (paused ?s')) (queue s)"])
      (auto simp: togglePause_def Let_def)
  then show ?thesis using i by (simp add: stateInv_def pinsWellFormed_def togglePause_def Let_def)
qed

lemma inv_setPin: "stateInv s \<Longrightarrow> n \<in> set (roommates s) \<Longrightarrow> stateInv (fst (setPin n raw s))"
  by (auto simp: stateInv_def setPin_def Let_def pinsWellFormed_def queuePartitioned_def
      activeQueue_def pausedList_def)

lemma inv_addCredits: "stateInv s \<Longrightarrow> stateInv (addCredits a b k eid now s)"
  by (simp add: stateInv_def pinsWellFormed_def queuePartitioned_def activeQueue_def pausedList_def
      addCredits_history del: take_Cons_numeral)

lemma advanceQueue_addCredits:
  "advanceQueue s (addCredits a b k eid now s)
     = addCredits a b k eid now (advanceQueue s s)"
  by (simp add: advanceQueue_def addCredits_def Let_def)

lemma inv_completeLoad: "stateInv s \<Longrightarrow> stateInv (completeLoad k a b True eid now s s)"
  by (simp add: completeLoad_def Let_def advanceQueue_addCredits inv_addCredits inv_advanceQueue)

lemma inv_handleComplete:
  "stateInv s \<Longrightarrow> stateInv (fst (handleComplete k ansRun pinRun ansUnload pinUnload eid now s))"
  by (auto simp: handleComplete_def Let_def inv_completeLoad split: gate.splits)

lemma inv_quickClaim: "stateInv s \<Longrightarrow> stateInv (fst (quickClaim k n act pin eid now s))"
  by (auto simp: quickClaim_def Let_def inv_completeLoad split: gate.splits action.splits option.splits)

lemma inv_resetCredits: "stateInv s \<Longrightarrow> stateInv (resetCredits b s)"
  by (simp add: stateInv_def resetCredits_def pinsWellFormed_def queuePartitioned_def activeQueue_def
      pausedList_def)

lemma reachable_inv: "reachable s \<Longrightarrow> stateInv s"
proof (induction rule: reachable.induct)
  case r_init
  show ?case by (rule inv_default)
qed (simp_all add: inv_ensureEntries inv_setRoommates inv_reorderQueue inv_togglePause inv_setPin
      inv_handleComplete inv_quickClaim inv_resetCredits)

text \<open>
  In a reachable state every PIN that reads as a string is empty or four to eight
  digits, so the gate compares the trimmed answer with the PIN as stored; only
  roommates have an entry in the PIN registry; the history has at most 200 entries; the
  queue is its active part followed by its paused part.
\<close>

lemma reachable_pin_trimmed:
  assumes "reachable s" and "pinOf (pins s) n = Pin p"
  shows "trim p = p"
proof (cases "pins s n")
  case None
  with assms(2) show ?thesis by (auto simp: pinOf_def jsGet_def split: if_splits)
next
  case (Some v)
  with assms(2) have "pins s n = Some (Pin p)" by (simp add: pinOf_def)
  moreover have "pinsWellFormed s"
    using reachable_inv [OF assms(1)] by (simp add: stateInv_def)
  ultimately have "case Pin p of Pin p \<Rightarrow> p = [] \<or> pin_format p
                               | PinMember k \<Rightarrow> k = n \<and> n \<in> set protoKeys"
    unfolding pinsWellFormed_def by blast
  then have "p = [] \<or> pin_format p" by simp
  then show ?thesis by (auto simp: pin_format_trim)
qed

lemma reachable_unknown_pin:
  assumes "reachable s" and "n \<notin> set (roommates s)"
  shows "pins s n = None"
  using reachable_inv [OF assms(1)] assms(2) by (auto simp: stateInv_def)

lemma reachable_history: "reachable s \<Longrightarrow> length (history s) \<le> 200"
  using reachable_inv by (simp add: stateInv_def)

lemma reachable_partitioned: "reachable s \<Longrightarrow> queue s = activeQueue s @ pausedList s"
  using reachable_inv by (simp add: stateInv_def queuePartitioned_def)

subsection \<open>The gate and the history in reachable states\<close>

text \<open>The state after the first render: every default roommate has credit 0 and no PIN.\<close>

lemma mounted:
  "ensureEntries defaultState
     = defaultState\<lparr> credits := [''A'' \<mapsto> Num 0, ''B'' \<mapsto> Num 0, ''C'' \<mapsto> Num 0, ''D'' \<mapsto> Num 0],
                     pins := [''A'' \<mapsto> Pin [], ''B'' \<mapsto> Pin [], ''C'' \<mapsto> Pin [], ''D'' \<mapsto> Pin []] \<rparr>"
  by (simp add: ensureEntries_def defaultState_def jsGet_def jsSet_def protoKeys_def)

lemma reachable_mounted: "reachable (ensureEntries defaultState)"
  by (rule r_effect [OF r_init])

text \<open>
  What the specification says of \<open>authorize(name, x)\<close> holds whenever the PIN that
  \<open>requirePinFor\<close> reads for \<open>name\<close> is a string (an entry that holds a string, or no
  entry under a name that objects do not inherit): in a reachable state, and in any
  state where that string has no surrounding white space, the gate lets every \<open>x\<close>
  through when the PIN is empty, and otherwise lets \<open>x\<close> through exactly when \<open>x\<close>
  trimmed equals the PIN; it refuses otherwise and does not throw.
\<close>

lemma authorize_string_pin:
  assumes "pinOf (pins s) name = Pin p" and "reachable s \<or> trim p = p"
  shows "(p = [] \<longrightarrow> requirePinFor (pins s) name (Some x) = Allowed)
       \<and> (p \<noteq> [] \<longrightarrow> (requirePinFor (pins s) name (Some x) = Allowed \<longleftrightarrow> trim x = p))
       \<and> (requirePinFor (pins s) name (Some x) \<noteq> Allowed \<longrightarrow>
            requirePinFor (pins s) name (Some x) = Denied)"
proof -
  have "trim p = p"
    using assms reachable_pin_trimmed by blast
  then show ?thesis by (auto simp add: requirePinFor_string [OF assms(1)])
qed

text \<open>
  C2. The code does not do what the claim says for a name that no entry holds and every
  object inherits. After the first render no PIN is stored for \<open>toString\<close>, so the
  claim has the gate return true for every secret; \<open>pins["toString"]\<close> reads the
  inherited function, \<open>(pins[name] || "")\<close> keeps it, and \<open>.trim()\<close> throws a
  \<open>TypeError\<close>. The comment beside the test, \<open>no PIN set \<rightarrow> allow\<close>, says what the
  claim says.
\<close>

theorem authorize_inherited_name:
  "reachable (ensureEntries defaultState)
   \<and> pins (ensureEntries defaultState) ''toString'' = None
   \<and> requirePinFor (pins (ensureEntries defaultState)) ''toString'' (Some ''0000'') = Threw
   \<and> requirePinFor (pins (ensureEntries defaultState)) ''toString'' (Some '''') = Threw
   \<and> requirePinFor (pins (ensureEntries defaultState)) ''A'' (Some ''0000'') = Allowed"
proof -
  have n: "pins (ensureEntries defaultState) ''toString'' = None"
    by (simp add: mounted)
  have "''toString'' \<in> set protoKeys" by (simp add: protoKeys_def)
  with n have p: "pinOf (pins (ensureEntries defaultState)) ''toString'' = PinMember ''toString''"
    by (rule pinOf_inherited)
  have a: "pinOf (pins (ensureEntries defaultState)) ''A'' = Pin []"
    by (simp add: mounted pinOf_def)
  show ?thesis
    by (simp add: reachable_mounted n requirePinFor_member [OF p] requirePinFor_string [OF a])
qed

text \<open>
  C7. After \<open>addCredits\<close> the history is the new entry followed by the old history, cut
  to its first 200 entries: the new entry is first, the length is at most 200, and what
  is cut off is the tail, the oldest entries. After any run of one or more completions
  the history is the entries of the run, the latest first, followed by the old history,
  cut to 200. In every reachable state the history has at most 200 entries.
\<close>

theorem history_spec:
  "history (addCredits a b k eid now s) = take 200 (mkEntry eid now k a b # history s)
   \<and> hd (history (addCredits a b k eid now s)) = mkEntry eid now k a b
   \<and> length (history (addCredits a b k eid now s)) \<le> 200
   \<and> history (fold (\<lambda>(a, b, k, eid, now). addCredits a b k eid now) (c # cs) s)
       = take 200 (rev (map (\<lambda>(a, b, k, eid, now). mkEntry eid now k a b) (c # cs)) @ history s)
   \<and> (reachable s \<longrightarrow> length (history s) \<le> 200)"
proof (intro conjI impI)
  show "history (addCredits a b k eid now s) = take 200 (mkEntry eid now k a b # history s)"
    by (rule addCredits_history)
  show "hd (history (addCredits a b k eid now s)) = mkEntry eid now k a b"
    by (simp add: addCredits_history)
  show "length (history (addCredits a b k eid now s)) \<le> 200"
    by (simp add: addCredits_history del: take_Cons_numeral)
  show "history (fold (\<lambda>(a, b, k, eid, now). addCredits a b k eid now) (c # cs) s)
       = take 200 (rev (map (\<lambda>(a, b, k, eid, now). mkEntry eid now k a b) (c # cs)) @ history s)"
    using history_fold [of "c # cs" s] by (simp only: list.distinct if_False)
  show "length (history s) \<le> 200" if "reachable s"
    using that by (rule reachable_history)
qed

theorem history_spec_witness:
  "reachable (fst (handleComplete Night None None None None ''x1'' ''t1'' defaultState))
   \<and> history (fst (handleComplete Night None None None None ''x1'' ''t1'' defaultState))
        = [mkEntry ''x1'' ''t1'' Night ''A'' ''A'']
   \<and> length (history (fst (handleComplete Night None None None None ''x1'' ''t1'' defaultState))) \<le> 200
   \<and> history (addCredits ''B'' ''C'' ThreePM ''x2'' ''t2''
        (fst (handleComplete Night None None None None ''x1'' ''t1'' defaultState)))
        = [mkEntry ''x2'' ''t2'' ThreePM ''B'' ''C'', mkEntry ''x1'' ''t1'' Night ''A'' ''A'']"
proof -
  let ?s = "fst (handleComplete Night None None None None ''x1'' ''t1'' defaultState)"
  have r: "reachable ?s" by (rule r_complete [OF r_init])
  have d: "''A'' = orDefault (map_option trim None) (defaultName defaultState)"
    by (simp add: orDefault_def defaultName_default)
  have u: "''A'' = orDefault (map_option trim None) ''A''" by (simp add: orDefault_def)
  have g: "requirePinFor (pins defaultState) ''A'' None = Allowed"
    by (simp add: requirePinFor_def pinOf_def jsGet_def protoKeys_def defaultState_def)
  have "handleComplete Night None None None None ''x1'' ''t1'' defaultState
      = (advanceQueue defaultState (addCredits ''A'' ''A'' Night ''x1'' ''t1'' defaultState), None)"
    by (rule handleComplete_granted [OF d _ u g g]) simp
  then have h: "history ?s = [mkEntry ''x1'' ''t1'' Night ''A'' ''A'']"
    by (simp add: addCredits_history) (simp add: defaultState_def)
  note th = history_spec [of "''B''" "''C''" ThreePM "''x2''" "''t2''" ?s]
  from th r have l: "length (history ?s) \<le> 200" by blast
  from th have "history (addCredits ''B'' ''C'' ThreePM ''x2'' ''t2'' ?s)
      = take 200 (mkEntry ''x2'' ''t2'' ThreePM ''B'' ''C'' # history ?s)"
    by blast
  then have n: "history (addCredits ''B'' ''C'' ThreePM ''x2'' ''t2'' ?s)
      = [mkEntry ''x2'' ''t2'' ThreePM ''B'' ''C'', mkEntry ''x1'' ''t1'' Night ''A'' ''A'']"
    by (simp add: h)
  from r h l n show ?thesis by blast
qed


text \<open>
  After 201 completions on an empty history the first entry is gone and the 200 later
  ones remain, the latest first.
\<close>

lemma history_201:
  assumes "history s = []" and "length cs = 200"
  shows "history (fold (\<lambda>(a, b, k, eid, now). addCredits a b k eid now) (c # cs) s)
       = rev (map (\<lambda>(a, b, k, eid, now). mkEntry eid now k a b) cs)"
  using assms history_fold [of "c # cs" s] by (simp del: fold_simps)

subsection \<open>Names without a PIN entry\<close>

text \<open>
  A name \<open>n\<close> (not empty, as typed and trimmed at the prompt) that objects do not
  inherit and that has no entry in the PIN registry, which in a reachable state is
  every such name outside the roster, passes the gate whatever the prompt would return,
  and no prompt is shown. Answering the runner prompt of \<open>handleComplete\<close> with \<open>n\<close> and
  leaving the unloader prompt blank records the load under \<open>n\<close>: no alert, a first
  history entry whose \<open>runBy\<close> and \<open>unloadBy\<close> are \<open>n\<close>, and a credit entry for \<open>n\<close>
  that is created with 1.0, or raised by 1.0 when it held a number with room for it.
\<close>

lemma unregistered_name_recorded:
  assumes "pins s n = None \<or> (reachable s \<and> n \<notin> set (roommates s))"
    and "n \<noteq> []" and "trim n = n" and "n \<notin> set protoKeys"
  shows "(\<forall>e. requirePinFor (pins s) n e = Allowed)
       \<and> handleComplete k (Some n) pinRun None pinUnload eid now s
           = (advanceQueue s (addCredits n n k eid now s), None)
       \<and> (credits s n = None \<longrightarrow>
            credits (fst (handleComplete k (Some n) pinRun None pinUnload eid now s)) n
              = Some (Num 1))
       \<and> (\<forall>x. credits s n = Some (Num x) \<and> exactHalves x \<longrightarrow>
            credits (fst (handleComplete k (Some n) pinRun None pinUnload eid now s)) n
              = Some (Num (x + 1)))
       \<and> runBy (hd (history (fst (handleComplete k (Some n) pinRun None pinUnload eid now s)))) = n
       \<and> unloadBy (hd (history (fst (handleComplete k (Some n) pinRun None pinUnload eid now s)))) = n
       \<and> kind_of (hd (history (fst (handleComplete k (Some n) pinRun None pinUnload eid now s)))) = k
       \<and> tl (history (fst (handleComplete k (Some n) pinRun None pinUnload eid now s)))
           = take 199 (history s)"
proof -
  have none: "pins s n = None"
    using assms(1) reachable_unknown_pin by blast
  then have "pinOf (pins s) n = Pin []"
    using assms(4) by (rule pinOf_none)
  then have gate: "requirePinFor (pins s) n e = Allowed" for e
    by (simp add: requirePinFor_string)
  have r: "n = orDefault (map_option trim (Some n)) (defaultName s)"
    using assms(2,3) by (simp add: orDefault_def)
  have u: "n = orDefault (map_option trim None) n"
    by (simp add: orDefault_def)
  have hc: "handleComplete k (Some n) pinRun None pinUnload eid now s
              = (advanceQueue s (addCredits n n k eid now s), None)"
    by (rule handleComplete_granted [OF r assms(2) u gate gate])
  have c0: "credits (addCredits n n k eid now s) n = Some (Num 1)" if "credits s n = None"
  proof -
    have "creditOf (credits s) n = Num 0"
      using that assms(4) by (simp add: creditOf_def jsGet_def)
    from addCredits_numbers [OF assms(2) assms(2) this exactHalves_0 this exactHalves_0]
    show ?thesis by simp
  qed
  have cx: "credits (addCredits n n k eid now s) n = Some (Num (x + 1))"
    if "credits s n = Some (Num x) \<and> exactHalves x" for x
  proof -
    have "creditOf (credits s) n = Num x" using that by (simp add: creditOf_def)
    from addCredits_numbers [OF assms(2) assms(2) this _ this] that
    show ?thesis by simp
  qed
  have h: "history (fst (handleComplete k (Some n) pinRun None pinUnload eid now s))
      = mkEntry eid now k n n # take 199 (history s)"
    by (simp add: hc addCredits_history)
  show ?thesis
    using gate c0 cx by (simp add: h) (simp add: hc mkEntry_def)
qed

text \<open>
  C10. The code does not do what the claim says for every name without an entry. The
  name \<open>toString\<close> is outside the roster and has no entry in the PIN registry, yet
  \<open>requirePinFor\<close> throws on the function it inherits: typing it at the runner prompt
  leaves the state as it was, with no credit entry and no history record. This is the
  defect of C2.
\<close>

theorem unregistered_inherited_name:
  "reachable (ensureEntries defaultState)
   \<and> ''toString'' \<notin> set (roommates (ensureEntries defaultState))
   \<and> pins (ensureEntries defaultState) ''toString'' = None
   \<and> requirePinFor (pins (ensureEntries defaultState)) ''toString'' None = Threw
   \<and> handleComplete Night (Some ''toString'') None None None ''x1'' ''t1'' (ensureEntries defaultState)
       = (ensureEntries defaultState, Some Uncaught_TypeError)
   \<and> credits (ensureEntries defaultState) ''toString'' = None
   \<and> history (ensureEntries defaultState) = []
   \<and> handleComplete Night (Some ''Zed'') None None None ''x1'' ''t1'' (ensureEntries defaultState)
       = (advanceQueue (ensureEntries defaultState)
            (addCredits ''Zed'' ''Zed'' Night ''x1'' ''t1'' (ensureEntries defaultState)), None)"
proof -
  let ?s = "ensureEntries defaultState"
  have n: "pins ?s ''toString'' = None" "credits ?s ''toString'' = None" "history ?s = []"
    "''toString'' \<notin> set (roommates ?s)"
    by (simp_all add: mounted) (simp_all add: defaultState_def)
  have "''toString'' \<in> set protoKeys" by (simp add: protoKeys_def)
  with n(1) have "pinOf (pins ?s) ''toString'' = PinMember ''toString''"
    by (rule pinOf_inherited)
  then have x: "requirePinFor (pins ?s) ''toString'' e = Threw" for e
    by (rule requirePinFor_member)
  have r: "''toString'' = orDefault (map_option trim (Some ''toString'')) (defaultName ?s)"
    by (simp add: orDefault_def trim_def is_space_def)
  have hc: "handleComplete Night (Some ''toString'') None None None ''x1'' ''t1'' ?s
      = (?s, Some Uncaught_TypeError)"
    by (simp add: handleComplete_unfold [OF r _ refl] x)
  have z: "pins ?s ''Zed'' = None \<or> (reachable ?s \<and> ''Zed'' \<notin> set (roommates ?s))"
    by (simp add: mounted)
  have "trim ''Zed'' = ''Zed''" by (simp add: trim_def is_space_def)
  moreover have "''Zed'' \<notin> set protoKeys" by (simp add: protoKeys_def)
  ultimately have zed: "handleComplete Night (Some ''Zed'') None None None ''x1'' ''t1'' ?s
       = (advanceQueue ?s (addCredits ''Zed'' ''Zed'' Night ''x1'' ''t1'' ?s), None)"
    using unregistered_name_recorded [OF z, of Night None None "''x1''" "''t1''"] by simp
  from reachable_mounted n x [of None] hc zed show ?thesis by blast
qed

subsection \<open>Advancing the rotation\<close>

lemma filter_active_paused:
  "filter (\<lambda>n. \<not> isPaused (paused s) n) (pausedList s) = []"
  "filter (isPaused (paused s)) (pausedList s) = pausedList s"
  "filter (\<lambda>n. \<not> isPaused (paused s) n) (activeQueue s) = activeQueue s"
  "filter (isPaused (paused s)) (activeQueue s) = []"
  by (auto simp: pausedList_def activeQueue_def filter_empty_conv)

lemma empty_active_partitioned:
  assumes "activeQueue s = []"
  shows "pausedList s = queue s"
  using assms by (auto simp: activeQueue_def pausedList_def filter_empty_conv filter_id_conv)

lemma advanceQueue_eq:
  "advanceQueue s s = s\<lparr>queue := rotate1 (activeQueue s) @ pausedList s\<rparr>"
proof (cases "activeQueue s")
  case Nil
  then show ?thesis by (simp add: advanceQueue_def empty_active_partitioned)
next
  case (Cons a as)
  then show ?thesis by (simp add: advanceQueue_def)
qed

lemma activeQueue_requeue:
  assumes "set xs \<subseteq> set (activeQueue s)"
  shows "activeQueue (s\<lparr>queue := xs @ pausedList s\<rparr>) = xs"
    and "pausedList (s\<lparr>queue := xs @ pausedList s\<rparr>) = pausedList s"
proof -
  have np: "\<forall>x \<in> set xs. \<not> isPaused (paused s) x"
    using assms active_not_paused by blast
  then have "filter (\<lambda>n. \<not> isPaused (paused s) n) xs = xs" "filter (isPaused (paused s)) xs = []"
    by (auto simp: filter_empty_conv filter_id_conv)
  then show "activeQueue (s\<lparr>queue := xs @ pausedList s\<rparr>) = xs"
    and "pausedList (s\<lparr>queue := xs @ pausedList s\<rparr>) = pausedList s"
    using filter_active_paused(1,2) [of s] by (simp_all add: activeQueue_def pausedList_def)
qed

lemma activeQueue_advance: "activeQueue (advanceQueue s s) = rotate1 (activeQueue s)"
  unfolding advanceQueue_eq by (rule activeQueue_requeue) simp

lemma pausedList_advance: "pausedList (advanceQueue s s) = pausedList s"
  unfolding advanceQueue_eq by (rule activeQueue_requeue) simp

lemma advance_funpow:
  "((\<lambda>t. advanceQueue t t) ^^ k) s =
     (if k = 0 then s else s\<lparr>queue := rotate k (activeQueue s) @ pausedList s\<rparr>)"
proof (induction k)
  case 0
  then show ?case by simp
next
  case (Suc k)
  show ?case
  proof (cases "k = 0")
    case True
    then show ?thesis by (simp add: advanceQueue_eq)
  next
    case False
    let ?t = "s\<lparr>queue := rotate k (activeQueue s) @ pausedList s\<rparr>"
    have t: "((\<lambda>t. advanceQueue t t) ^^ k) s = ?t" using Suc.IH False by simp
    have a: "activeQueue ?t = rotate k (activeQueue s)" and p: "pausedList ?t = pausedList s"
      by (rule activeQueue_requeue, simp)+
    have "advanceQueue ?t ?t = ?t\<lparr>queue := rotate1 (activeQueue ?t) @ pausedList ?t\<rparr>"
      by (rule advanceQueue_eq)
    then show ?thesis by (simp add: t a p)
  qed
qed

lemma activeQueue_funpow:
  "activeQueue (((\<lambda>t. advanceQueue t t) ^^ k) s) = rotate k (activeQueue s)"
proof (cases "k = 0")
  case True
  then show ?thesis by simp
next
  case False
  have "activeQueue (s\<lparr>queue := rotate k (activeQueue s) @ pausedList s\<rparr>) = rotate k (activeQueue s)"
    by (rule activeQueue_requeue) simp
  then show ?thesis using False by (simp add: advance_funpow)
qed

lemma rotate_distinct_neq:
  assumes "distinct xs" and "0 < k" and "k < length xs"
  shows "rotate k xs \<noteq> xs"
proof
  assume eq: "rotate k xs = xs"
  have ne: "xs \<noteq> []" using assms(3) by auto
  have "hd (rotate k xs) = xs ! (k mod length xs)"
    using ne by (rule hd_rotate_conv_nth)
  also have "k mod length xs = k" using assms(3) by simp
  finally have "hd xs = xs ! k" by (simp only: eq)
  moreover have "hd xs = xs ! 0" using ne by (rule hd_conv_nth)
  ultimately have "xs ! k = xs ! 0" by simp
  moreover have "0 < length xs" using ne by simp
  ultimately have "k = 0"
    using assms(1,3) nth_eq_iff_index_eq [of xs k 0] by blast
  then show False using assms(2) by simp
qed

text \<open>
  C5. \<open>advance()\<close> is \<open>advanceQueue\<close> on the render of the state it changes. It writes
  the active sub-sequence rotated left by one, followed by the paused names, and touches
  no other field: afterwards the active sub-sequence is the old one rotated and the
  paused part is the old one; with no active name nothing changes. After as many
  applications as there are active names, the active sub-sequence and the paused part
  are the original ones, and the whole state is the original one in every reachable
  state, and in any state whose queue is its active part followed by its paused part.
  When the active names are distinct, no smaller positive number of applications
  restores the order.
\<close>

theorem advance_spec:
  "advanceQueue s s = s\<lparr>queue := rotate1 (activeQueue s) @ pausedList s\<rparr>
   \<and> activeQueue (advanceQueue s s) = rotate1 (activeQueue s)
   \<and> pausedList (advanceQueue s s) = pausedList s
   \<and> (activeQueue s = [] \<longrightarrow> advanceQueue s s = s)
   \<and> activeQueue (((\<lambda>t. advanceQueue t t) ^^ length (activeQueue s)) s) = activeQueue s
   \<and> pausedList (((\<lambda>t. advanceQueue t t) ^^ length (activeQueue s)) s) = pausedList s
   \<and> (reachable s \<or> queue s = activeQueue s @ pausedList s \<longrightarrow>
        ((\<lambda>t. advanceQueue t t) ^^ length (activeQueue s)) s = s)
   \<and> (distinct (activeQueue s) \<and> 0 < k \<and> k < length (activeQueue s) \<longrightarrow>
        activeQueue (((\<lambda>t. advanceQueue t t) ^^ k) s) \<noteq> activeQueue s)"
proof (intro conjI impI)
  show "advanceQueue s s = s\<lparr>queue := rotate1 (activeQueue s) @ pausedList s\<rparr>"
    by (rule advanceQueue_eq)
  show "activeQueue (advanceQueue s s) = rotate1 (activeQueue s)"
    by (rule activeQueue_advance)
  show "pausedList (advanceQueue s s) = pausedList s"
    by (rule pausedList_advance)
  show "advanceQueue s s = s" if "activeQueue s = []"
    using that by (simp add: advanceQueue_def)
  show "activeQueue (((\<lambda>t. advanceQueue t t) ^^ length (activeQueue s)) s) = activeQueue s"
    by (simp add: activeQueue_funpow)
  show "pausedList (((\<lambda>t. advanceQueue t t) ^^ length (activeQueue s)) s) = pausedList s"
    using activeQueue_requeue(2) [of "rotate (length (activeQueue s)) (activeQueue s)" s]
    by (simp add: advance_funpow)
  show "((\<lambda>t. advanceQueue t t) ^^ length (activeQueue s)) s = s"
    if "reachable s \<or> queue s = activeQueue s @ pausedList s"
  proof -
    have "queue s = activeQueue s @ pausedList s"
      using that reachable_partitioned by blast
    then show ?thesis by (simp add: advance_funpow)
  qed
  show "activeQueue (((\<lambda>t. advanceQueue t t) ^^ k) s) \<noteq> activeQueue s"
    if "distinct (activeQueue s) \<and> 0 < k \<and> k < length (activeQueue s)"
    using that by (simp add: activeQueue_funpow rotate_distinct_neq)
qed

theorem advance_spec_witness:
  "activeQueue (defaultState\<lparr>queue := [''A'', ''C'', ''D'', ''B''], paused := [''B'' \<mapsto> True]\<rparr>)
      = [''A'', ''C'', ''D'']
   \<and> queue (defaultState\<lparr>queue := [''A'', ''C'', ''D'', ''B''], paused := [''B'' \<mapsto> True]\<rparr>)
      = activeQueue (defaultState\<lparr>queue := [''A'', ''C'', ''D'', ''B''], paused := [''B'' \<mapsto> True]\<rparr>)
        @ pausedList (defaultState\<lparr>queue := [''A'', ''C'', ''D'', ''B''], paused := [''B'' \<mapsto> True]\<rparr>)
   \<and> ((\<lambda>t. advanceQueue t t)
         ^^ length (activeQueue (defaultState\<lparr>queue := [''A'', ''C'', ''D'', ''B''], paused := [''B'' \<mapsto> True]\<rparr>)))
        (defaultState\<lparr>queue := [''A'', ''C'', ''D'', ''B''], paused := [''B'' \<mapsto> True]\<rparr>)
      = defaultState\<lparr>queue := [''A'', ''C'', ''D'', ''B''], paused := [''B'' \<mapsto> True]\<rparr>
   \<and> queue (advanceQueue
        (defaultState\<lparr>queue := [''A'', ''C'', ''D'', ''B''], paused := [''B'' \<mapsto> True]\<rparr>)
        (defaultState\<lparr>queue := [''A'', ''C'', ''D'', ''B''], paused := [''B'' \<mapsto> True]\<rparr>))
      = [''C'', ''D'', ''A'', ''B'']
   \<and> distinct (activeQueue (defaultState\<lparr>queue := [''A'', ''C'', ''D'', ''B''], paused := [''B'' \<mapsto> True]\<rparr>))
   \<and> (0::nat) < 2
   \<and> 2 < length (activeQueue (defaultState\<lparr>queue := [''A'', ''C'', ''D'', ''B''], paused := [''B'' \<mapsto> True]\<rparr>))
   \<and> activeQueue (((\<lambda>t. advanceQueue t t) ^^ 2)
        (defaultState\<lparr>queue := [''A'', ''C'', ''D'', ''B''], paused := [''B'' \<mapsto> True]\<rparr>))
      \<noteq> activeQueue (defaultState\<lparr>queue := [''A'', ''C'', ''D'', ''B''], paused := [''B'' \<mapsto> True]\<rparr>)
   \<and> activeQueue (defaultState\<lparr>queue := [''B''], paused := [''B'' \<mapsto> True]\<rparr>) = []
   \<and> advanceQueue (defaultState\<lparr>queue := [''B''], paused := [''B'' \<mapsto> True]\<rparr>)
        (defaultState\<lparr>queue := [''B''], paused := [''B'' \<mapsto> True]\<rparr>)
      = defaultState\<lparr>queue := [''B''], paused := [''B'' \<mapsto> True]\<rparr>
   \<and> reachable (togglePause ''B'' defaultState)
   \<and> ((\<lambda>t. advanceQueue t t) ^^ length (activeQueue (togglePause ''B'' defaultState)))
        (togglePause ''B'' defaultState)
      = togglePause ''B'' defaultState"
proof -
  let ?s = "defaultState\<lparr>queue := [''A'', ''C'', ''D'', ''B''], paused := [''B'' \<mapsto> True]\<rparr>"
  let ?e = "defaultState\<lparr>queue := [''B''], paused := [''B'' \<mapsto> True]\<rparr>"
  have a: "activeQueue ?s = [''A'', ''C'', ''D'']" and p: "pausedList ?s = [''B'']"
    and e: "activeQueue ?e = []"
    by (simp_all add: activeQueue_def pausedList_def isPaused_def jsGet_def protoKeys_def)
  have h1: "queue ?s = activeQueue ?s @ pausedList ?s" by (simp add: a p)
  have h2: "distinct (activeQueue ?s) \<and> (0::nat) < 2 \<and> 2 < length (activeQueue ?s)" by (simp add: a)
  note th = advance_spec [of ?s 2]
  note te = advance_spec [of ?e 0]
  from th have "advanceQueue ?s ?s = ?s\<lparr>queue := rotate1 (activeQueue ?s) @ pausedList ?s\<rparr>"
    by (rule conjunct1)
  then have t1: "queue (advanceQueue ?s ?s) = [''C'', ''D'', ''A'', ''B'']"
    by (simp add: a p)
  from th h1 have t2: "((\<lambda>t. advanceQueue t t) ^^ length (activeQueue ?s)) ?s = ?s"
    by blast
  have "''B'' \<in> set (activeQueue defaultState)"
    by (simp add: activeQueue_def isPaused_def jsGet_def protoKeys_def defaultState_def)
  then have r: "reachable (togglePause ''B'' defaultState)"
    by (rule r_pause [OF r_init])
  from advance_spec [of "togglePause ''B'' defaultState" 0] r
  have t5: "((\<lambda>t. advanceQueue t t) ^^ length (activeQueue (togglePause ''B'' defaultState)))
        (togglePause ''B'' defaultState) = togglePause ''B'' defaultState"
    by blast
  from th h2 have t3: "activeQueue (((\<lambda>t. advanceQueue t t) ^^ 2) ?s) \<noteq> activeQueue ?s"
    by blast
  from te e have t4: "advanceQueue ?e ?e = ?e" by blast
  from a h1 t2 t1 h2 t3 e t4 r t5 show ?thesis by blast
qed

subsection \<open>Replacing the roster\<close>

lemma mset_filter_all: "mset (filter P xs) = mset xs \<longleftrightarrow> (\<forall>x \<in> set xs. P x)"
proof
  assume "mset (filter P xs) = mset xs"
  then have "length (filter P xs) = length xs" by (rule mset_eq_length)
  moreover have "length (filter P xs) + length (filter (\<lambda>x. \<not> P x) xs) = length xs"
    by (rule sum_length_filter_compl)
  ultimately have "filter (\<lambda>x. \<not> P x) xs = []" by simp
  then show "\<forall>x \<in> set xs. P x" by (simp add: filter_empty_conv)
next
  assume "\<forall>x \<in> set xs. P x"
  then have "filter P xs = xs" by (simp add: filter_id_conv)
  then show "mset (filter P xs) = mset xs" by simp
qed

text \<open>What \<open>setRoommatesFromInput\<close> writes, for any roster, in terms of what the code reads.\<close>

lemma setRoommates_eq:
  assumes "parseNames v = R" and "R \<noteq> []"
  shows "setRoommatesFromInput v s =
      s\<lparr> roommates := R,
         queue := filter (\<lambda>n. \<not> isPaused (paused s) n) R,
         credits := (\<lambda>n. if n \<in> set R then Some (creditOf (credits s) n) else None),
         pins := (\<lambda>n. if n \<in> set R then Some (pinOf (pins s) n) else None) \<rparr>"
  using assms by (simp add: setRoommatesFromInput_def Let_def foldl_upd)

lemma plain_reads:
  assumes "n \<notin> set protoKeys"
  shows "isPaused p n \<longleftrightarrow> p n = Some True"
    and "creditOf c n = (case c n of None \<Rightarrow> Num 0 | Some v \<Rightarrow> v)"
    and "pinOf q n = (case q n of None \<Rightarrow> Pin [] | Some v \<Rightarrow> v)"
  using assms by (auto simp: isPaused_def creditOf_def pinOf_def jsGet_def split: option.splits)

lemma paused_B: "togglePause ''B'' defaultState
    = defaultState\<lparr>paused := [''B'' \<mapsto> True], queue := [''A'', ''C'', ''D'', ''B'']\<rparr>"
  by (simp add: togglePause_def Let_def isPaused_def jsGet_def protoKeys_def defaultState_def)

lemma parse_ABCD: "parseNames ''A, B, C, D'' = [''A'', ''B'', ''C'', ''D'']"
  by (simp add: parseNames_def trim_def is_space_def)

text \<open>
  C4, as the claim states it, fails: the new queue is the roster without the names that
  are paused at that moment. With \<open>B\<close> paused, the roster \<open>A, B, C, D\<close> gives the queue
  \<open>A, C, D\<close>, which is no permutation of the roster.
\<close>

theorem setRoster_counterexample:
  "parseNames ''A, B, C, D'' = [''A'', ''B'', ''C'', ''D'']
   \<and> [''A'', ''B'', ''C'', ''D''] \<noteq> [] \<and> distinct [''A'', ''B'', ''C'', ''D'']
   \<and> queue (setRoommatesFromInput ''A, B, C, D'' (togglePause ''B'' defaultState)) = [''A'', ''C'', ''D'']
   \<and> mset (queue (setRoommatesFromInput ''A, B, C, D'' (togglePause ''B'' defaultState)))
        \<noteq> mset [''A'', ''B'', ''C'', ''D'']"
proof -
  have q: "queue (setRoommatesFromInput ''A, B, C, D'' (togglePause ''B'' defaultState)) = [''A'', ''C'', ''D'']"
    by (simp add: setRoommatesFromInput_def Let_def parse_ABCD paused_B isPaused_def jsGet_def
        protoKeys_def)
  have "mset [''A'', ''C'', ''D''] \<noteq> mset [''A'', ''B'', ''C'', ''D'']"
    using mset_eq_length [of "[''A'', ''C'', ''D'']" "[''A'', ''B'', ''C'', ''D'']"] by auto
  with q show ?thesis by (simp add: parse_ABCD)
qed

text \<open>
  C4, amended. For every non-empty roster \<open>R\<close> read from the names field (split at the
  commas, trimmed, blanks dropped) that names no property every object inherits,
  \<open>setRoommatesFromInput\<close> sets \<open>roommates\<close> to \<open>R\<close> and \<open>queue\<close> to \<open>R\<close> without the
  names paused at that moment, in the order of \<open>R\<close>; the queue is a permutation of \<open>R\<close>
  exactly when no name of \<open>R\<close> is paused. The maps \<open>credits\<close> and \<open>pins\<close> are keyed
  exactly by the names of \<open>R\<close>; a name that had an entry keeps its value, a new name
  gets credit 0 and the empty PIN. The paused map and the history are untouched.
\<close>

theorem setRoster_spec:
  assumes "parseNames v = R" and "R \<noteq> []" and "set R \<inter> set protoKeys = {}"
  shows "roommates (setRoommatesFromInput v s) = R
       \<and> queue (setRoommatesFromInput v s) = filter (\<lambda>n. paused s n \<noteq> Some True) R
       \<and> (mset (queue (setRoommatesFromInput v s)) = mset R
            \<longleftrightarrow> (\<forall>n \<in> set R. paused s n \<noteq> Some True))
       \<and> dom (credits (setRoommatesFromInput v s)) = set R
       \<and> dom (pins (setRoommatesFromInput v s)) = set R
       \<and> (\<forall>n \<in> set R.
             credits (setRoommatesFromInput v s) n
               = Some (case credits s n of None \<Rightarrow> Num 0 | Some c \<Rightarrow> c)
           \<and> pins (setRoommatesFromInput v s) n
               = Some (case pins s n of None \<Rightarrow> Pin [] | Some p \<Rightarrow> p))
       \<and> paused (setRoommatesFromInput v s) = paused s
       \<and> history (setRoommatesFromInput v s) = history s"
proof -
  have plain: "n \<notin> set protoKeys" if "n \<in> set R" for n
    using that assms(3) by blast
  have f: "filter (\<lambda>n. \<not> isPaused (paused s) n) R = filter (\<lambda>n. paused s n \<noteq> Some True) R"
    by (rule filter_cong) (simp_all add: plain_reads(1) [OF plain])
  have m: "mset (filter (\<lambda>n. paused s n \<noteq> Some True) R) = mset R
            \<longleftrightarrow> (\<forall>n \<in> set R. paused s n \<noteq> Some True)"
    by (rule mset_filter_all)
  show ?thesis
    unfolding setRoommates_eq [OF assms(1,2)] f
  proof (intro conjI)
    show "mset (queue (s\<lparr> roommates := R,
         queue := filter (\<lambda>n. paused s n \<noteq> Some True) R,
         credits := (\<lambda>n. if n \<in> set R then Some (creditOf (credits s) n) else None),
         pins := (\<lambda>n. if n \<in> set R then Some (pinOf (pins s) n) else None) \<rparr>)) = mset R
       \<longleftrightarrow> (\<forall>n \<in> set R. paused s n \<noteq> Some True)"
      using m by (simp del: mset_filter)
  qed (auto simp: dom_def plain_reads(2,3) [OF plain])
qed

theorem setRoster_spec_witness:
  "parseNames ''A, B, E'' = [''A'', ''B'', ''E''] \<and> [''A'', ''B'', ''E''] \<noteq> []
   \<and> set [''A'', ''B'', ''E''] \<inter> set protoKeys = {}
   \<and> roommates (setRoommatesFromInput ''A, B, E'' (togglePause ''B'' defaultState)) = [''A'', ''B'', ''E'']
   \<and> queue (setRoommatesFromInput ''A, B, E'' (togglePause ''B'' defaultState)) = [''A'', ''E'']
   \<and> dom (pins (setRoommatesFromInput ''A, B, E'' (togglePause ''B'' defaultState))) = {''A'', ''B'', ''E''}
   \<and> dom (credits (setRoommatesFromInput ''A, B, E'' (togglePause ''B'' defaultState))) = {''A'', ''B'', ''E''}
   \<and> ''E'' \<in> set [''A'', ''B'', ''E'']
   \<and> credits (setRoommatesFromInput ''A, B, E'' (togglePause ''B'' defaultState)) ''E'' = Some (Num 0)
   \<and> pins (setRoommatesFromInput ''A, B, E'' (togglePause ''B'' defaultState)) ''E'' = Some (Pin [])"
proof -
  have p: "parseNames ''A, B, E'' = [''A'', ''B'', ''E'']"
    by (simp add: parseNames_def trim_def is_space_def)
  have ne: "[''A'', ''B'', ''E''] \<noteq> []" by simp
  have pk: "set [''A'', ''B'', ''E''] \<inter> set protoKeys = {}"
    by (simp add: protoKeys_def)
  note th = setRoster_spec [OF p ne pk, of "togglePause ''B'' defaultState"]
  have c: "credits (togglePause ''B'' defaultState) ''E'' = None"
    "pins (togglePause ''B'' defaultState) ''E'' = None"
    by (simp_all add: paused_B) (simp_all add: defaultState_def)
  have f: "filter (\<lambda>n. paused (togglePause ''B'' defaultState) n \<noteq> Some True) [''A'', ''B'', ''E'']
      = [''A'', ''E'']"
    by (simp add: paused_B)
  from th have "credits (setRoommatesFromInput ''A, B, E'' (togglePause ''B'' defaultState)) ''E''
        = Some (case credits (togglePause ''B'' defaultState) ''E'' of None \<Rightarrow> Num 0 | Some c \<Rightarrow> c)"
    and "pins (setRoommatesFromInput ''A, B, E'' (togglePause ''B'' defaultState)) ''E''
        = Some (case pins (togglePause ''B'' defaultState) ''E'' of None \<Rightarrow> Pin [] | Some p \<Rightarrow> p)"
    by simp_all
  with th p pk f c show ?thesis by auto
qed

text \<open>
  The rosters this leaves out. A name that every object inherits and no entry holds
  reads as paused and as the inherited member: \<open>A, constructor\<close> gives the queue \<open>A\<close>,
  and \<open>constructor\<close> gets that member as its credit and as its PIN.
\<close>

lemma setRoster_inherited:
  "queue (setRoommatesFromInput ''A, constructor'' defaultState) = [''A'']"
  "credits (setRoommatesFromInput ''A, constructor'' defaultState) ''constructor''
     = Some (Member ''constructor'')"
  "pins (setRoommatesFromInput ''A, constructor'' defaultState) ''constructor''
     = Some (PinMember ''constructor'')"
proof -
  have p: "parseNames ''A, constructor'' = [''A'', ''constructor'']"
    by (simp add: parseNames_def trim_def is_space_def)
  have ne: "[''A'', ''constructor''] \<noteq> []" by simp
  note eq = setRoommates_eq [OF p ne, of defaultState]
  show "queue (setRoommatesFromInput ''A, constructor'' defaultState) = [''A'']"
    unfolding eq by (simp add: isPaused_def jsGet_def protoKeys_def defaultState_def)
  show "credits (setRoommatesFromInput ''A, constructor'' defaultState) ''constructor''
     = Some (Member ''constructor'')"
    unfolding eq by (simp add: creditOf_def jsGet_def protoKeys_def defaultState_def)
  show "pins (setRoommatesFromInput ''A, constructor'' defaultState) ''constructor''
     = Some (PinMember ''constructor'')"
    unfolding eq by (simp add: pinOf_def jsGet_def protoKeys_def defaultState_def)
qed

subsection \<open>Pausing twice\<close>

lemma isPaused_toggle:
  "isPaused ((paused s)(x \<mapsto> \<not> isPaused (paused s) x)) n
     = (if n = x then \<not> isPaused (paused s) x else isPaused (paused s) n)"
  by (simp add: isPaused_def jsGet_def protoKeys_def)

lemma togglePause_paused:
  "paused (togglePause x s) = (paused s)(x \<mapsto> \<not> isPaused (paused s) x)"
  by (simp add: togglePause_def Let_def)

lemma togglePause_isPaused:
  "isPaused (paused (togglePause x s)) n
     = (if n = x then \<not> isPaused (paused s) x else isPaused (paused s) n)"
  by (simp add: togglePause_paused isPaused_toggle)

lemma togglePause_queue:
  "queue (togglePause x s)
     = filter (\<lambda>n. \<not> isPaused (paused (togglePause x s)) n) (queue s)
       @ filter (isPaused (paused (togglePause x s))) (queue s)"
  by (simp add: togglePause_def Let_def)

lemma togglePause_other [simp]:
  "roommates (togglePause x s) = roommates s"
  "credits (togglePause x s) = credits s"
  "history (togglePause x s) = history s"
  "pins (togglePause x s) = pins s"
  by (simp_all add: togglePause_def Let_def)

lemma togglePause_twice_paused:
  "isPaused (paused (togglePause x (togglePause x s))) = isPaused (paused s)"
  by (auto simp: fun_eq_iff togglePause_isPaused)

lemma filter_eqI: "(\<And>n. P n = Q n) \<Longrightarrow> filter P xs = filter Q xs"
  by (rule filter_cong) simp_all

lemma three_way_neg:
  "filter (\<lambda>n. \<not> P n)
      (filter (\<lambda>n. \<not> P n \<and> n \<noteq> x) xs @ filter (\<lambda>n. n = x) xs @ filter (\<lambda>n. P n \<and> n \<noteq> x) xs)
     = filter (\<lambda>n. n \<noteq> x) (filter (\<lambda>n. \<not> P n) xs) @ filter (\<lambda>n. n = x) (filter (\<lambda>n. \<not> P n) xs)"
proof -
  have "filter (\<lambda>n. (\<not> P n \<and> n \<noteq> x) \<and> \<not> P n) xs = filter (\<lambda>n. \<not> P n \<and> n \<noteq> x) xs"
    by (rule filter_eqI) auto
  moreover have "filter (\<lambda>n. n = x \<and> \<not> P n) xs = filter (\<lambda>n. \<not> P n \<and> n = x) xs"
    by (rule filter_eqI) auto
  moreover have "filter (\<lambda>n. (P n \<and> n \<noteq> x) \<and> \<not> P n) xs = []"
    by (auto simp: filter_empty_conv)
  ultimately show ?thesis by simp
qed

lemma three_way_pos:
  "filter P
      (filter (\<lambda>n. \<not> P n \<and> n \<noteq> x) xs @ filter (\<lambda>n. n = x) xs @ filter (\<lambda>n. P n \<and> n \<noteq> x) xs)
     = filter (\<lambda>n. n = x) (filter P xs) @ filter (\<lambda>n. n \<noteq> x) (filter P xs)"
proof -
  have "filter (\<lambda>n. (P n \<and> n \<noteq> x) \<and> P n) xs = filter (\<lambda>n. P n \<and> n \<noteq> x) xs"
    by (rule filter_eqI) auto
  moreover have "filter (\<lambda>n. n = x \<and> P n) xs = filter (\<lambda>n. P n \<and> n = x) xs"
    by (rule filter_eqI) auto
  moreover have "filter (\<lambda>n. (\<not> P n \<and> n \<noteq> x) \<and> P n) xs = []"
    by (auto simp: filter_empty_conv)
  ultimately show ?thesis by simp
qed

lemma togglePause_twice_queue:
  "queue (togglePause x (togglePause x s))
     = filter (\<lambda>n. \<not> isPaused (paused s) n \<and> n \<noteq> x) (queue s)
       @ filter (\<lambda>n. n = x) (queue s)
       @ filter (\<lambda>n. isPaused (paused s) n \<and> n \<noteq> x) (queue s)"
proof -
  let ?P = "isPaused (paused s)"
  let ?q = "queue s"
  have q2: "queue (togglePause x (togglePause x s))
      = filter (\<lambda>n. \<not> ?P n) (queue (togglePause x s)) @ filter ?P (queue (togglePause x s))"
    using togglePause_queue [of x "togglePause x s"] by (simp only: togglePause_twice_paused)
  have q1: "queue (togglePause x s)
      = filter (\<lambda>n. if n = x then ?P x else \<not> ?P n) ?q
        @ filter (\<lambda>n. if n = x then \<not> ?P x else ?P n) ?q"
    using togglePause_queue [of x s] by (simp add: togglePause_isPaused [abs_def] if_distrib cong: if_cong)
  show ?thesis
  proof (cases "?P x")
    case True
    have a: "filter (\<lambda>n. \<not> ?P n) (queue (togglePause x s)) = filter (\<lambda>n. \<not> ?P n \<and> n \<noteq> x) ?q"
      unfolding q1 using True by (auto intro: filter_cong)
    have b: "filter ?P (queue (togglePause x s))
        = filter (\<lambda>n. n = x) ?q @ filter (\<lambda>n. ?P n \<and> n \<noteq> x) ?q"
      unfolding q1 using True by (auto intro: filter_cong)
    show ?thesis by (simp add: q2 a b)
  next
    case False
    have a: "filter (\<lambda>n. \<not> ?P n) (queue (togglePause x s))
        = filter (\<lambda>n. \<not> ?P n \<and> n \<noteq> x) ?q @ filter (\<lambda>n. n = x) ?q"
      unfolding q1 using False by (auto intro: filter_cong)
    have b: "filter ?P (queue (togglePause x s)) = filter (\<lambda>n. ?P n \<and> n \<noteq> x) ?q"
      unfolding q1 using False by (auto intro: filter_cong)
    show ?thesis by (simp add: q2 a b)
  qed
qed

lemma mset_three_way:
  "mset (filter (\<lambda>n. \<not> P n \<and> n \<noteq> x) xs @ filter (\<lambda>n. n = x) xs @ filter (\<lambda>n. P n \<and> n \<noteq> x) xs)
     = mset xs"
  by (induction xs) auto

text \<open>
  C6, as the claim states it, fails for the queue: pausing and unpausing \<open>B\<close> in the
  default state leaves the queue \<open>A, C, D, B\<close>, not \<open>A, B, C, D\<close>.
\<close>

theorem togglePause_twice_counterexample:
  "''B'' \<in> set (roommates defaultState)
   \<and> queue defaultState = [''A'', ''B'', ''C'', ''D'']
   \<and> queue (togglePause ''B'' (togglePause ''B'' defaultState)) = [''A'', ''C'', ''D'', ''B'']
   \<and> queue (togglePause ''B'' (togglePause ''B'' defaultState)) \<noteq> queue defaultState"
  by (simp add: togglePause_def Let_def isPaused_def jsGet_def protoKeys_def defaultState_def)

text \<open>
  C6, amended. For every name \<open>x\<close>, \<open>togglePause(x)\<close> applied twice returns the set of
  paused names to what it was (the entry of \<open>x\<close> is then an explicit boolean with the
  truth value it had, every other entry is untouched), and leaves a queue with the same
  names in which \<open>x\<close> has moved to the border between the active and the paused names:
  the active names other than \<open>x\<close> in their order, then \<open>x\<close>, then the paused names
  other than \<open>x\<close> in their order. So \<open>x\<close> is the last active name if it was active, and
  the first paused name if it was paused.
\<close>

theorem togglePause_twice_spec:
  "isPaused (paused (togglePause x (togglePause x s))) = isPaused (paused s)
   \<and> paused (togglePause x (togglePause x s)) = (paused s)(x \<mapsto> isPaused (paused s) x)
   \<and> queue (togglePause x (togglePause x s))
       = filter (\<lambda>n. \<not> isPaused (paused s) n \<and> n \<noteq> x) (queue s)
         @ filter (\<lambda>n. n = x) (queue s)
         @ filter (\<lambda>n. isPaused (paused s) n \<and> n \<noteq> x) (queue s)
   \<and> mset (queue (togglePause x (togglePause x s))) = mset (queue s)
   \<and> activeQueue (togglePause x (togglePause x s))
       = filter (\<lambda>n. n \<noteq> x) (activeQueue s) @ filter (\<lambda>n. n = x) (activeQueue s)
   \<and> pausedList (togglePause x (togglePause x s))
       = filter (\<lambda>n. n = x) (pausedList s) @ filter (\<lambda>n. n \<noteq> x) (pausedList s)"
proof (intro conjI)
  show "isPaused (paused (togglePause x (togglePause x s))) = isPaused (paused s)"
    by (rule togglePause_twice_paused)
  show "paused (togglePause x (togglePause x s)) = (paused s)(x \<mapsto> isPaused (paused s) x)"
    by (simp add: togglePause_paused isPaused_def jsGet_def protoKeys_def)
  show "queue (togglePause x (togglePause x s))
       = filter (\<lambda>n. \<not> isPaused (paused s) n \<and> n \<noteq> x) (queue s)
         @ filter (\<lambda>n. n = x) (queue s)
         @ filter (\<lambda>n. isPaused (paused s) n \<and> n \<noteq> x) (queue s)"
    by (rule togglePause_twice_queue)
  show "mset (queue (togglePause x (togglePause x s))) = mset (queue s)"
    unfolding togglePause_twice_queue by (rule mset_three_way)
  show "activeQueue (togglePause x (togglePause x s))
       = filter (\<lambda>n. n \<noteq> x) (activeQueue s) @ filter (\<lambda>n. n = x) (activeQueue s)"
    unfolding activeQueue_def togglePause_twice_paused togglePause_twice_queue
    by (rule three_way_neg)
  show "pausedList (togglePause x (togglePause x s))
       = filter (\<lambda>n. n = x) (pausedList s) @ filter (\<lambda>n. n \<noteq> x) (pausedList s)"
    unfolding pausedList_def togglePause_twice_paused togglePause_twice_queue
    by (rule three_way_pos)
qed

subsection \<open>Reordering the active names\<close>

lemma spliceOut_in_range:
  assumes "0 \<le> i" and "i < int (length xs)"
  shows "spliceOut i xs = (Some (xs ! nat i), take (nat i) xs @ drop (Suc (nat i)) xs)"
proof -
  have "spliceStart i xs = nat i" using assms by (simp add: spliceStart_def)
  moreover have "nat i < length xs" using assms by simp
  ultimately show ?thesis by (simp add: spliceOut_def Let_def)
qed

lemma spliceIn_in_range:
  assumes "0 \<le> j" and "j \<le> int (length xs)"
  shows "spliceIn j v xs = take (nat j) xs @ v # drop (nat j) xs"
  using assms by (simp add: spliceIn_def spliceStart_def Let_def)

lemma spliceIn_beyond:
  assumes "int (length xs) \<le> j"
  shows "spliceIn j v xs = xs @ [v]"
  using assms by (simp add: spliceIn_def spliceStart_def Let_def)

lemma mset_spliceIn: "mset (spliceIn j v xs) = add_mset v (mset xs)"
proof -
  have "mset (take k xs) + mset (drop k xs) = mset xs" for k
    by (metis append_take_drop_id mset_append)
  then show ?thesis by (simp add: spliceIn_def Let_def)
qed

lemma mset_remove_nth:
  assumes "k < length xs"
  shows "add_mset (xs ! k) (mset (take k xs @ drop (Suc k) xs)) = mset xs"
proof -
  have "xs = take k xs @ xs ! k # drop (Suc k) xs"
    using assms by (simp add: id_take_nth_drop)
  then have "mset xs = mset (take k xs @ xs ! k # drop (Suc k) xs)" by simp
  then show ?thesis by simp
qed

lemma active_default: "activeQueue defaultState = [''A'', ''B'', ''C'', ''D'']"
  and paused_default: "pausedList defaultState = []"
  by (simp_all add: activeQueue_def pausedList_def isPaused_def jsGet_def protoKeys_def defaultState_def)

text \<open>
  C9, as the claim states it, fails: \<open>reorderQueue\<close> compares the two indices with each
  other and with nothing else. In the default state, with four active names and the
  target index 5, it reports nothing and moves \<open>A\<close> to the end of the queue.
\<close>

theorem reorderQueue_counterexample:
  "\<not> (0 \<le> (5::int) \<and> 5 \<le> int (length (activeQueue defaultState)) - 1)
   \<and> reorderQueue 0 5 defaultState defaultState
       = Updated (defaultState\<lparr>queue := [''B'', ''C'', ''D'', ''A'']\<rparr>)
   \<and> queue (defaultState\<lparr>queue := [''B'', ''C'', ''D'', ''A'']\<rparr>) \<noteq> queue defaultState"
  by (simp add: reorderQueue_def spliceOut_def spliceIn_def spliceStart_def Let_def
      active_default paused_default)
    (simp add: defaultState_def)

text \<open>
  C9, amended. \<open>reorderQueue\<close> checks no range and has no failing outcome; the arrows
  of the interface call it with both indices inside \<open>[0, activeLength-1]\<close>. For a source
  index in that range and a different target index, it removes the name at the source
  index from the active sub-sequence and puts it back at the target index, where a
  target index at or beyond the end puts it last; the active names stay the same names,
  the paused names follow unchanged, and no other field changes.
\<close>

theorem reorderQueue_spec:
  assumes "0 \<le> i" and "i < int (length (activeQueue s))" and "i \<noteq> j"
  shows "reorderQueue i j s s
           = Updated (s\<lparr>queue :=
               spliceIn j (activeQueue s ! nat i)
                 (take (nat i) (activeQueue s) @ drop (Suc (nat i)) (activeQueue s))
               @ pausedList s\<rparr>)
       \<and> mset (spliceIn j (activeQueue s ! nat i)
                 (take (nat i) (activeQueue s) @ drop (Suc (nat i)) (activeQueue s)))
           = mset (activeQueue s)
       \<and> (0 \<le> j \<and> j < int (length (activeQueue s)) \<longrightarrow>
            spliceIn j (activeQueue s ! nat i)
                 (take (nat i) (activeQueue s) @ drop (Suc (nat i)) (activeQueue s))
            = take (nat j) (take (nat i) (activeQueue s) @ drop (Suc (nat i)) (activeQueue s))
              @ activeQueue s ! nat i
              # drop (nat j) (take (nat i) (activeQueue s) @ drop (Suc (nat i)) (activeQueue s)))
       \<and> (int (length (activeQueue s)) \<le> j \<longrightarrow>
            spliceIn j (activeQueue s ! nat i)
                 (take (nat i) (activeQueue s) @ drop (Suc (nat i)) (activeQueue s))
            = (take (nat i) (activeQueue s) @ drop (Suc (nat i)) (activeQueue s))
              @ [activeQueue s ! nat i])"
proof (intro conjI impI)
  let ?a = "activeQueue s"
  let ?rest = "take (nat i) ?a @ drop (Suc (nat i)) ?a"
  have len: "int (length ?rest) = int (length ?a) - 1"
    using assms(1,2) by simp
  show "reorderQueue i j s s = Updated (s\<lparr>queue := spliceIn j (?a ! nat i) ?rest @ pausedList s\<rparr>)"
    using assms(3) by (simp add: reorderQueue_def spliceOut_in_range [OF assms(1,2)])
  show "mset (spliceIn j (?a ! nat i) ?rest) = mset ?a"
    unfolding mset_spliceIn using assms(1,2) by (intro mset_remove_nth) simp
  show "spliceIn j (?a ! nat i) ?rest = take (nat j) ?rest @ ?a ! nat i # drop (nat j) ?rest"
    if "0 \<le> j \<and> j < int (length ?a)"
    using that len by (intro spliceIn_in_range) simp_all
  show "spliceIn j (?a ! nat i) ?rest = ?rest @ [?a ! nat i]"
    if "int (length ?a) \<le> j"
    using that len by (intro spliceIn_beyond) simp
qed

theorem reorderQueue_spec_witness:
  "(0::int) \<le> 0 \<and> 0 < int (length (activeQueue defaultState)) \<and> (0::int) \<noteq> 2
   \<and> (0::int) \<le> 2 \<and> 2 < int (length (activeQueue defaultState))
   \<and> reorderQueue 0 2 defaultState defaultState
       = Updated (defaultState\<lparr>queue := [''B'', ''C'', ''A'', ''D'']\<rparr>)
   \<and> int (length (activeQueue defaultState)) \<le> 9
   \<and> reorderQueue 0 9 defaultState defaultState
       = Updated (defaultState\<lparr>queue := [''B'', ''C'', ''D'', ''A'']\<rparr>)"
proof -
  have h: "(0::int) \<le> 0" "0 < int (length (activeQueue defaultState))" "(0::int) \<noteq> 2" "(0::int) \<noteq> 9"
    "(0::int) \<le> 2 \<and> 2 < int (length (activeQueue defaultState))"
    "int (length (activeQueue defaultState)) \<le> 9"
    by (simp_all add: active_default)
  note t2 = reorderQueue_spec [OF h(1,2,3)]
  note t9 = reorderQueue_spec [OF h(1,2,4)]
  from t2 h(5) have "reorderQueue 0 2 defaultState defaultState
      = Updated (defaultState\<lparr>queue :=
          (take (nat 2) (take (nat 0) (activeQueue defaultState) @ drop (Suc (nat 0)) (activeQueue defaultState))
              @ activeQueue defaultState ! nat 0
              # drop (nat 2) (take (nat 0) (activeQueue defaultState) @ drop (Suc (nat 0)) (activeQueue defaultState)))
          @ pausedList defaultState\<rparr>)"
    by presburger
  then have a: "reorderQueue 0 2 defaultState defaultState
       = Updated (defaultState\<lparr>queue := [''B'', ''C'', ''A'', ''D'']\<rparr>)"
    by (simp add: active_default paused_default)
  from t9 h(6) have "reorderQueue 0 9 defaultState defaultState
      = Updated (defaultState\<lparr>queue :=
          ((take (nat 0) (activeQueue defaultState) @ drop (Suc (nat 0)) (activeQueue defaultState))
              @ [activeQueue defaultState ! nat 0])
          @ pausedList defaultState\<rparr>)"
    by presburger
  then have b: "reorderQueue 0 9 defaultState defaultState
       = Updated (defaultState\<lparr>queue := [''B'', ''C'', ''D'', ''A'']\<rparr>)"
    by (simp add: active_default paused_default)
  from h a b show ?thesis by blast
qed

text \<open>
  The calls the arrows make are in range, so they always yield a state; a source index
  at the end of the active names instead writes an \<open>undefined\<close> into the queue.
\<close>

lemma reorder_arrows_in_range:
  assumes "idx < length (activeQueue s)"
  shows "\<exists>s'. reorderQueue (int idx) (max 0 (int idx - 1)) s s = Updated s'"
    and "\<exists>s'. reorderQueue (int idx) (min (int (length (activeQueue s)) - 1) (int idx + 1)) s s = Updated s'"
proof -
  have r: "0 \<le> int idx" "int idx < int (length (activeQueue s))" using assms by simp_all
  show "\<exists>s'. reorderQueue (int idx) (max 0 (int idx - 1)) s s = Updated s'"
    by (simp add: reorderQueue_def spliceOut_in_range [OF r])
  show "\<exists>s'. reorderQueue (int idx) (min (int (length (activeQueue s)) - 1) (int idx + 1)) s s = Updated s'"
    by (simp add: reorderQueue_def spliceOut_in_range [OF r])
qed

lemma reorderQueue_hole:
  "reorderQueue 4 0 defaultState defaultState
     = Holed [None, Some ''A'', Some ''B'', Some ''C'', Some ''D'']"
  by (simp add: reorderQueue_def spliceOut_def spliceIn_def spliceStart_def Let_def
      active_default paused_default)

subsection \<open>The names that reach the credit ledger\<close>

text \<open>
  \<open>addCredits\<close> is called by \<open>completeLoad\<close> only, and with names that are not empty:
  \<open>handleComplete\<close> stops at an empty name, and \<open>quickClaim\<close> passes the roommate whose
  button was pressed and the current head of the rotation, which \<open>||\<close> replaces when
  it is empty.
\<close>

lemma handleComplete_outcomes:
  "handleComplete k ansRun pinRun ansUnload pinUnload eid now s = (s, Some Please_set_roommates_first)
   \<or> handleComplete k ansRun pinRun ansUnload pinUnload eid now s = (s, Some Incorrect_PIN)
   \<or> handleComplete k ansRun pinRun ansUnload pinUnload eid now s = (s, Some Uncaught_TypeError)
   \<or> (\<exists>r u. r \<noteq> [] \<and> u \<noteq> []
         \<and> handleComplete k ansRun pinRun ansUnload pinUnload eid now s
             = (advanceQueue s (addCredits r u k eid now s), None))"
proof (cases "orDefault (map_option trim ansRun) (defaultName s) = []")
  case True
  then show ?thesis by (simp add: handleComplete_def Let_def)
next
  case r: False
  let ?r = "orDefault (map_option trim ansRun) (defaultName s)"
  let ?u = "orDefault (map_option trim ansUnload) ?r"
  have u: "?u \<noteq> []" using r by (rule orDefault_nonempty)
  note eq = handleComplete_unfold [OF refl r refl]
  show ?thesis
  proof (cases "requirePinFor (pins s) ?r pinRun")
    case Allowed
    with r u show ?thesis
      by (cases "requirePinFor (pins s) ?u pinUnload") (auto simp: eq)
  qed (simp_all add: eq)
qed

lemma current_nonempty: "current s = Some c \<Longrightarrow> c \<noteq> []"
  by (auto simp: current_def split: list.splits if_splits)

lemma quickClaim_outcomes:
  assumes "n \<noteq> []"
  shows "quickClaim k n act pin eid now s = (s, Some Incorrect_PIN)
   \<or> quickClaim k n act pin eid now s = (s, Some Uncaught_TypeError)
   \<or> (\<exists>r. r \<noteq> [] \<and> quickClaim k n act pin eid now s
             = (advanceQueue s (addCredits r n k eid now s), None))"
proof (cases "requirePinFor (pins s) n pin")
  case Allowed
  show ?thesis
  proof (cases act)
    case Run
    with Allowed assms show ?thesis by (auto simp: quickClaim_def completeLoad_def Let_def)
  next
    case Unload
    show ?thesis
    proof (cases "current s")
      case None
      with Allowed assms Unload show ?thesis
        by (auto simp: quickClaim_def completeLoad_def Let_def)
    next
      case (Some c)
      then have "c \<noteq> []" by (rule current_nonempty)
      with Allowed Some Unload show ?thesis
        by (auto simp: quickClaim_def completeLoad_def Let_def)
    qed
  qed
qed (simp_all add: quickClaim_def)

lemma reachable_roommate_nonempty: "reachable s \<Longrightarrow> n \<in> set (roommates s) \<Longrightarrow> n \<noteq> []"
  using reachable_inv by (auto simp: stateInv_def)

subsection \<open>The first load of the default roster\<close>

text \<open>
  With the default roster, no PIN set and \<open>A\<close> at the head: a 3 PM load run by \<open>A\<close> and
  unloaded by \<open>B\<close> gives both 0.5, moves \<open>A\<close> to the end of the queue and leaves one
  history entry.
\<close>

lemma end_to_end_complete:
  "handleComplete ThreePM (Some ''A'') None (Some ''B'') None eid now (ensureEntries defaultState)
     = (ensureEntries defaultState
          \<lparr> queue := [''B'', ''C'', ''D'', ''A''],
             credits := [''A'' \<mapsto> Num (1 / 2), ''B'' \<mapsto> Num (1 / 2), ''C'' \<mapsto> Num 0, ''D'' \<mapsto> Num 0],
             history := [mkEntry eid now ThreePM ''A'' ''B''] \<rparr>, None)"
proof -
  let ?s = "ensureEntries defaultState"
  have a: "activeQueue ?s = [''A'', ''B'', ''C'', ''D'']" and p: "pausedList ?s = []"
    unfolding mounted
    by (simp_all add: activeQueue_def pausedList_def isPaused_def jsGet_def protoKeys_def
        defaultState_def)
  have d: "defaultName ?s = ''A''"
    by (simp add: defaultName_def current_def a)
  have r: "''A'' = orDefault (map_option trim (Some ''A'')) (defaultName ?s)"
    and u: "''B'' = orDefault (map_option trim (Some ''B'')) ''A''"
    by (simp_all add: orDefault_def trim_def is_space_def)
  have g: "requirePinFor (pins ?s) ''A'' None = Allowed" "requirePinFor (pins ?s) ''B'' None = Allowed"
    unfolding mounted by (simp_all add: requirePinFor_def pinOf_def)
  have hc: "handleComplete ThreePM (Some ''A'') None (Some ''B'') None eid now ?s
      = (advanceQueue ?s (addCredits ''A'' ''B'' ThreePM eid now ?s), None)"
    by (rule handleComplete_granted [OF r _ u g]) simp
  have ca: "creditOf (credits ?s) ''A'' = Num 0" and cb: "creditOf (credits ?s) ''B'' = Num 0"
    unfolding mounted by (simp_all add: creditOf_def)
  note n = addCredits_numbers [OF _ _ ca exactHalves_0 cb exactHalves_0, of ThreePM eid now]
  have other: "credits (addCredits ''A'' ''B'' ThreePM eid now ?s) x = credits ?s x"
    if "x \<noteq> ''A''" "x \<noteq> ''B''" for x
    using n that by simp
  have c: "credits (addCredits ''A'' ''B'' ThreePM eid now ?s)
      = [''A'' \<mapsto> Num (1 / 2), ''B'' \<mapsto> Num (1 / 2), ''C'' \<mapsto> Num 0, ''D'' \<mapsto> Num 0]"
  proof
    fix x
    show "credits (addCredits ''A'' ''B'' ThreePM eid now ?s) x
      = [''A'' \<mapsto> Num (1 / 2), ''B'' \<mapsto> Num (1 / 2), ''C'' \<mapsto> Num 0, ''D'' \<mapsto> Num 0] x"
    proof (cases "x = ''A'' \<or> x = ''B''")
      case True
      then show ?thesis using n by auto
    next
      case False
      then have "credits (addCredits ''A'' ''B'' ThreePM eid now ?s) x = credits ?s x"
        using other by simp
      with False show ?thesis unfolding mounted by simp
    qed
  qed
  have h: "history ?s = []" unfolding mounted by (simp add: defaultState_def)
  have ac: "addCredits ''A'' ''B'' ThreePM eid now ?s
      = ?s\<lparr> credits := [''A'' \<mapsto> Num (1 / 2), ''B'' \<mapsto> Num (1 / 2), ''C'' \<mapsto> Num 0, ''D'' \<mapsto> Num 0],
            history := [mkEntry eid now ThreePM ''A'' ''B''] \<rparr>"
    using c addCredits_history [of "''A''" "''B''" ThreePM eid now ?s] h
    by (simp add: addCredits_def Let_def)
  have "advanceQueue ?s (addCredits ''A'' ''B'' ThreePM eid now ?s)
      = ?s\<lparr> queue := [''B'', ''C'', ''D'', ''A''],
            credits := [''A'' \<mapsto> Num (1 / 2), ''B'' \<mapsto> Num (1 / 2), ''C'' \<mapsto> Num 0, ''D'' \<mapsto> Num 0],
            history := [mkEntry eid now ThreePM ''A'' ''B''] \<rparr>"
    unfolding ac by (simp add: advanceQueue_def a p)
  then show ?thesis by (simp only: hc)
qed


end
